theory Spec2Isabelle
  imports Complex_Main "HOL-Library.Multiset"
begin

unbundle bit_operations_syntax

section \<open>Python strings and number formatting\<close>

text \<open>
  Python strings are modelled as \<^typ>\<open>string\<close>. The string methods the program calls are
  written out as list functions: \<open>str.strip()\<close>, \<open>str.split(sep)\<close> with a one-character
  separator, \<open>sep.join(parts)\<close>, \<open>str.partition(sep)\<close>, \<open>str.startswith\<close>.
\<close>

definition isspace :: "char \<Rightarrow> bool" where
  \<comment> \<open>the code points below 256 for which \<open>str.isspace\<close> holds\<close>
  "isspace c = (c \<in> set [CHR 0x09, CHR 0x0A, CHR 0x0B, CHR 0x0C, CHR 0x0D,
                           CHR 0x1C, CHR 0x1D, CHR 0x1E, CHR 0x1F, CHR 0x20, CHR 0x85, CHR 0xA0])"

definition str_strip :: "string \<Rightarrow> string" where
  "str_strip s = rev (dropWhile isspace (rev (dropWhile isspace s)))"

fun str_split :: "char \<Rightarrow> string \<Rightarrow> string list" where
  "str_split sep [] = [[]]"
| "str_split sep (c # cs) =
     (if c = sep then [] # str_split sep cs
      else (case str_split sep cs of
              [] \<Rightarrow> [[c]]
            | p # ps \<Rightarrow> (c # p) # ps))"

fun str_join :: "string \<Rightarrow> string list \<Rightarrow> string" where
  "str_join sep [] = []"
| "str_join sep [p] = p"
| "str_join sep (p # q # ps) = p @ sep @ str_join sep (q # ps)"

definition startswith :: "string \<Rightarrow> string \<Rightarrow> bool" where
  "startswith s pre = (take (length pre) s = pre)"

definition hex_digit :: "nat \<Rightarrow> char" where
  "hex_digit d = ''0123456789abcdef'' ! d"

text \<open>\<open>'%x' % n\<close>: lowercase hexadecimal, no padding.\<close>

fun format_x :: "nat \<Rightarrow> string" where
  "format_x n = (if n < 16 then [hex_digit n] else format_x (n div 16) @ [hex_digit (n mod 16)])"

declare format_x.simps [simp del]

definition zero_pad :: "nat \<Rightarrow> string \<Rightarrow> string" where
  "zero_pad w s = replicate (w - length s) CHR ''0'' @ s"

definition format_04x :: "nat \<Rightarrow> string" where
  \<comment> \<open>\<open>f"{idx:04x}"\<close>\<close>
  "format_04x n = zero_pad 4 (format_x n)"

definition format_032x :: "nat \<Rightarrow> string" where
  \<comment> \<open>\<open>'%032x' % ip_int\<close>\<close>
  "format_032x n = zero_pad 32 (format_x n)"

definition hex_value :: "char \<Rightarrow> nat option" where
  "hex_value c =
     (let k = (of_char c :: nat) in
      if 48 \<le> k \<and> k \<le> 57 then Some (k - 48)
      else if 97 \<le> k \<and> k \<le> 102 then Some (k - 87)
      else if 65 \<le> k \<and> k \<le> 70 then Some (k - 55)
      else None)"

fun hex_acc :: "nat \<Rightarrow> string \<Rightarrow> nat option" where
  "hex_acc a [] = Some a"
| "hex_acc a (c # cs) = (case hex_value c of None \<Rightarrow> None | Some d \<Rightarrow> hex_acc (16 * a + d) cs)"

definition int_base16 :: "string \<Rightarrow> nat option" where
  \<comment> \<open>\<open>int(s, 16)\<close> on the strings it is given here, which hold hexadecimal digits only
      (no sign, prefix, underscore or blank); \<open>None\<close> is the \<open>ValueError\<close>\<close>
  "int_base16 s = (if s = [] then None else hex_acc 0 s)"

definition is_digit :: "char \<Rightarrow> bool" where
  \<comment> \<open>\<open>c.isascii() and c.isdigit()\<close>\<close>
  "is_digit c = (48 \<le> (of_char c :: nat) \<and> (of_char c :: nat) \<le> 57)"

definition int_base10 :: "string \<Rightarrow> nat" where
  \<comment> \<open>\<open>int(s, 10)\<close> on a non-empty string of ASCII digits\<close>
  "int_base10 s = foldl (\<lambda>a c. 10 * a + ((of_char c :: nat) - 48)) 0 s"

section \<open>The standard library's \<open>ipaddress\<close> module\<close>

text \<open>
  The program parses and prints addresses through \<open>ipaddress.IPv6Address\<close>. The model follows
  CPython's \<open>Lib/ipaddress.py\<close> (3.9 to 3.12: a zone suffix \<open>%scope\<close> is accepted) function
  by function. \<open>None\<close> stands for the \<open>AddressValueError\<close> (a \<open>ValueError\<close>) the library
  raises.
\<close>

definition parse_octet :: "string \<Rightarrow> nat option" where
  "parse_octet octet_str =
     (if octet_str = [] then None
      else if \<not> list_all is_digit octet_str then None
      else if length octet_str > 3 then None
      else if octet_str \<noteq> ''0'' \<and> hd octet_str = CHR ''0'' then None
      else (let octet_int = int_base10 octet_str in
            if octet_int > 255 then None else Some octet_int))"

definition ipv4_int_from_string :: "string \<Rightarrow> nat option" where
  "ipv4_int_from_string ip_str =
     (if ip_str = [] then None
      else (let octets = str_split CHR ''.'' ip_str in
            if length octets \<noteq> 4 then None
            else (case those (map parse_octet octets) of
                    None \<Rightarrow> None
                  | Some bs \<Rightarrow> Some (foldl (\<lambda>a b. 256 * a + b) 0 bs))))"

definition IPv4Address :: "string \<Rightarrow> nat option" where
  "IPv4Address address =
     (if CHR ''/'' \<in> set address then None else ipv4_int_from_string address)"

definition HEX_DIGITS :: "char list" where
  "HEX_DIGITS = ''0123456789ABCDEFabcdef''"

definition parse_hextet :: "string \<Rightarrow> nat option" where
  "parse_hextet hextet_str =
     (if \<not> list_all (\<lambda>c. c \<in> set HEX_DIGITS) hextet_str then None
      else if length hextet_str > 4 then None
      else int_base16 hextet_str)"

text \<open>
  The loop \<open>for i in range(1, len(parts) - 1)\<close> that looks for the one empty part inside the
  address. The outer \<open>None\<close> is the error "At most one '::' permitted".
\<close>

fun find_skip :: "string list \<Rightarrow> nat list \<Rightarrow> nat option \<Rightarrow> nat option option" where
  "find_skip parts [] skip_index = Some skip_index"
| "find_skip parts (i # rest) skip_index =
     (if parts ! i = [] then
        (if skip_index \<noteq> None then None else find_skip parts rest (Some i))
      else find_skip parts rest skip_index)"

text \<open>The loop \<open>ip_int <<= 16; ip_int |= cls._parse_hextet(parts[i])\<close>.\<close>

fun shift_hextets :: "nat \<Rightarrow> string list \<Rightarrow> nat option" where
  "shift_hextets ip_int [] = Some ip_int"
| "shift_hextets ip_int (p # ps) =
     (case parse_hextet p of
        None \<Rightarrow> None
      | Some h \<Rightarrow> shift_hextets (push_bit 16 ip_int OR h) ps)"

definition v4_suffix :: "string list \<Rightarrow> string list option" where
  \<comment> \<open>an IPv4-style last part is replaced by its two hextets\<close>
  "v4_suffix parts =
     (if CHR ''.'' \<in> set (last parts) then
        (case IPv4Address (last parts) of
           None \<Rightarrow> None
         | Some ipv4_int \<Rightarrow>
             Some (butlast parts @ [format_x (drop_bit 16 ipv4_int AND 0xFFFF),
                                    format_x (ipv4_int AND 0xFFFF)]))
      else Some parts)"

definition hi_lo_skipped :: "string list \<Rightarrow> nat option \<Rightarrow> (nat \<times> nat \<times> nat) option" where
  \<comment> \<open>\<open>parts_hi\<close>, \<open>parts_lo\<close> and \<open>parts_skipped\<close>\<close>
  "hi_lo_skipped parts skip =
     (case skip of
        Some skip_index \<Rightarrow>
          (let parts_hi = skip_index;
               parts_lo = length parts - skip_index - 1;
               hi_ok = (hd parts \<noteq> [] \<or> parts_hi - 1 = 0);
               parts_hi = (if hd parts = [] then parts_hi - 1 else parts_hi);
               lo_ok = (last parts \<noteq> [] \<or> parts_lo - 1 = 0);
               parts_lo = (if last parts = [] then parts_lo - 1 else parts_lo);
               parts_skipped = 8 - (parts_hi + parts_lo)
           in if \<not> hi_ok then None
              else if \<not> lo_ok then None
              else if parts_skipped < 1 then None
              else Some (parts_hi, parts_lo, parts_skipped))
      | None \<Rightarrow>
          (if length parts \<noteq> 8 then None
           else if hd parts = [] then None
           else if last parts = [] then None
           else Some (length parts, 0, 0)))"

definition ip_int_from_string :: "string \<Rightarrow> nat option" where
  "ip_int_from_string ip_str =
     (if ip_str = [] then None
      else (let parts = str_split CHR '':'' ip_str in
        if length parts < 3 then None
        else (case v4_suffix parts of
          None \<Rightarrow> None
        | Some parts \<Rightarrow>
            if length parts > 9 then None
            else (case find_skip parts [1 ..< length parts - 1] None of
              None \<Rightarrow> None
            | Some skip \<Rightarrow>
                (case hi_lo_skipped parts skip of
                   None \<Rightarrow> None
                 | Some (parts_hi, parts_lo, parts_skipped) \<Rightarrow>
                     (case shift_hextets 0 (take parts_hi parts) of
                        None \<Rightarrow> None
                      | Some ip_int \<Rightarrow>
                          shift_hextets (push_bit (16 * parts_skipped) ip_int)
                            (drop (length parts - parts_lo) parts)))))))"

text \<open>
  \<open>_compress_hextets\<close>: one pass that tracks the current and the best run of \<open>'0'\<close> hextets
  (start \<open>-1\<close> means none), then the slice assignment that replaces the best run.
\<close>

fun compress_scan :: "int \<times> nat \<times> int \<times> nat \<Rightarrow> (nat \<times> string) list \<Rightarrow> int \<times> nat \<times> int \<times> nat" where
  "compress_scan st [] = st"
| "compress_scan (best_start, best_len, cur_start, cur_len) ((index, hextet) # rest) =
     (if hextet = ''0'' then
        (let cur_len = cur_len + 1;
             cur_start = (if cur_start = - 1 then int index else cur_start)
         in if cur_len > best_len
            then compress_scan (cur_start, cur_len, cur_start, cur_len) rest
            else compress_scan (best_start, best_len, cur_start, cur_len) rest)
      else compress_scan (best_start, best_len, - 1, 0) rest)"

definition compress_hextets :: "string list \<Rightarrow> string list" where
  "compress_hextets hextets =
     (case compress_scan (- 1, 0, - 1, 0) (enumerate 0 hextets) of
        (best_start, best_len, cur_start, cur_len) \<Rightarrow>
          if best_len > 1 then
            (let best_end = nat best_start + best_len;
                 hextets1 = (if best_end = length hextets then hextets @ [[]] else hextets);
                 hextets2 = take (nat best_start) hextets1 @ [[]] @ drop best_end hextets1
             in if best_start = 0 then [[]] @ hextets2 else hextets2)
          else hextets)"

definition ALL_ONES :: nat where
  "ALL_ONES = 2 ^ 128 - 1"

definition hex_slices :: "string \<Rightarrow> string list" where
  \<comment> \<open>\<open>[hex_str[x:x+4] for x in range(0, 32, 4)]\<close>\<close>
  "hex_slices hex_str = map (\<lambda>x. take 4 (drop x hex_str)) [0, 4, 8, 12, 16, 20, 24, 28]"

definition string_from_ip_int :: "nat \<Rightarrow> string option" where
  "string_from_ip_int ip_int =
     (if ip_int > ALL_ONES then None
      else (case those (map int_base16 (hex_slices (format_032x ip_int))) of
              None \<Rightarrow> None
            | Some hs \<Rightarrow> Some (str_join '':'' (compress_hextets (map format_x hs)))))"

record ipv6_address =
  ip_value :: nat
  scope_id :: "string option"

definition split_scope_id :: "string \<Rightarrow> (string \<times> string option) option" where
  \<comment> \<open>\<open>addr, sep, scope_id = ip_str.partition('%')\<close>\<close>
  "split_scope_id ip_str =
     (let addr = takeWhile (\<lambda>c. c \<noteq> CHR ''%'') ip_str;
          rest = dropWhile (\<lambda>c. c \<noteq> CHR ''%'') ip_str
      in if rest = [] then Some (addr, None)
         else if tl rest = [] \<or> CHR ''%'' \<in> set (tl rest) then None
         else Some (addr, Some (tl rest)))"

definition IPv6Address :: "string \<Rightarrow> ipv6_address option" where
  "IPv6Address address =
     (if CHR ''/'' \<in> set address then None
      else (case split_scope_id address of
              None \<Rightarrow> None
            | Some (addr_str, scope) \<Rightarrow>
                (case ip_int_from_string addr_str of
                   None \<Rightarrow> None
                 | Some v \<Rightarrow> Some \<lparr>ip_value = v, scope_id = scope\<rparr>)))"

definition ipv6_str :: "ipv6_address \<Rightarrow> string option" where
  \<comment> \<open>\<open>str(addr)\<close>, the compressed form, with the zone suffix when there is one\<close>
  "ipv6_str a =
     (case string_from_ip_int (ip_value a) of
        None \<Rightarrow> None
      | Some ip_str \<Rightarrow>
          (case scope_id a of
             None \<Rightarrow> Some ip_str
           | Some sc \<Rightarrow> if sc \<noteq> [] then Some (ip_str @ ''%'' @ sc) else Some ip_str))"

definition exploded :: "ipv6_address \<Rightarrow> string option" where
  \<comment> \<open>\<open>_explode_shorthand_ip_string\<close>: the library parses \<open>str(self)\<close> again\<close>
  "exploded a =
     (case ipv6_str a of
        None \<Rightarrow> None
      | Some ip_str \<Rightarrow>
          (case ip_int_from_string ip_str of
             None \<Rightarrow> None
           | Some ip_int \<Rightarrow> Some (str_join '':'' (hex_slices (format_032x ip_int)))))"

section \<open>The segment tokenizer (\<open>nanochat/tokenizer_ipv6.py\<close>)\<close>

definition TOKEN_OFFSET :: int where
  "TOKEN_OFFSET = 65536"

definition SPECIAL_TOKENS :: "string list" where
  "SPECIAL_TOKENS = [''<|bos|>'', ''<|eos|>'', ''<|pad|>'', ''<|user_start|>'', ''<|user_end|>'',
                     ''<|assistant_start|>'', ''<|assistant_end|>'']"

datatype error = KeyError | ValueError | OSError

record tokenizer =
  special_tokens_map :: "string \<rightharpoonup> int"
  id_to_special_token :: "int \<rightharpoonup> string"
  bos_token_id :: int
  eos_token_id :: int
  pad_token_id :: int
  vocab_size :: int

definition getitem :: "('k \<rightharpoonup> 'v) \<Rightarrow> 'k \<Rightarrow> error + 'v" where
  \<comment> \<open>\<open>d[k]\<close>\<close>
  "getitem d k = (case d k of None \<Rightarrow> Inl KeyError | Some v \<Rightarrow> Inr v)"

fun build_maps :: "(nat \<times> string) list \<Rightarrow> (string \<rightharpoonup> int) \<times> (int \<rightharpoonup> string)
                     \<Rightarrow> (string \<rightharpoonup> int) \<times> (int \<rightharpoonup> string)" where
  "build_maps [] maps = maps"
| "build_maps ((i, token) # rest) (stm, its) =
     (let token_id = TOKEN_OFFSET + int i
      in build_maps rest (stm(token \<mapsto> token_id), its(token_id \<mapsto> token)))"

definition get_tokenizer :: "error + tokenizer" where
  \<comment> \<open>\<open>IPv6SegmentTokenizer.__init__\<close>\<close>
  "get_tokenizer =
     (case build_maps (enumerate 0 SPECIAL_TOKENS) (Map.empty, Map.empty) of
        (stm, its) \<Rightarrow>
          (case getitem stm ''<|bos|>'' of Inl e \<Rightarrow> Inl e | Inr bos \<Rightarrow>
          (case getitem stm ''<|eos|>'' of Inl e \<Rightarrow> Inl e | Inr eos \<Rightarrow>
          (case getitem stm ''<|pad|>'' of Inl e \<Rightarrow> Inl e | Inr pad \<Rightarrow>
             Inr \<lparr>special_tokens_map = stm, id_to_special_token = its,
                  bos_token_id = bos, eos_token_id = eos, pad_token_id = pad,
                  vocab_size = TOKEN_OFFSET + int (length SPECIAL_TOKENS)\<rparr>))))"

definition encode_special :: "tokenizer \<Rightarrow> string \<Rightarrow> int" where
  \<comment> \<open>\<open>self.special_tokens_map.get(text, self.eos_token_id)\<close>\<close>
  "encode_special self text =
     (case special_tokens_map self text of None \<Rightarrow> eos_token_id self | Some v \<Rightarrow> v)"

definition get_bos_token_id :: "tokenizer \<Rightarrow> int" where
  "get_bos_token_id self = bos_token_id self"

datatype control = Id int | Name string

definition control_id :: "tokenizer \<Rightarrow> control \<Rightarrow> int" where
  \<comment> \<open>\<open>prepend if isinstance(prepend, int) else self.encode_special(prepend)\<close>\<close>
  "control_id self c = (case c of Id i \<Rightarrow> i | Name s \<Rightarrow> encode_special self s)"

definition encode_body :: "string \<Rightarrow> int list" where
  \<comment> \<open>the \<open>try\<close> block of \<open>_encode_one\<close>; every \<open>ValueError\<close> ends in \<open>pass\<close>, with no token added\<close>
  "encode_body text =
     (case IPv6Address (str_strip text) of
        None \<Rightarrow> []
      | Some addr \<Rightarrow>
          (case exploded addr of
             None \<Rightarrow> []
           | Some full_str \<Rightarrow>
               (case those (map int_base16 (str_split CHR '':'' full_str)) of
                  None \<Rightarrow> []
                | Some token_ids \<Rightarrow> map int token_ids)))"

definition encode_one :: "tokenizer \<Rightarrow> string \<Rightarrow> control option \<Rightarrow> control option \<Rightarrow> int list" where
  "encode_one self text prepend_tok append_tok =
     (let ids = [];
          ids = (case prepend_tok of None \<Rightarrow> ids | Some p \<Rightarrow> ids @ [control_id self p]);
          ids = (if str_strip text \<noteq> [] then ids @ encode_body text else ids);
          ids = (case append_tok of None \<Rightarrow> ids | Some a \<Rightarrow> ids @ [control_id self a])
      in ids)"

definition encode :: "tokenizer \<Rightarrow> string \<Rightarrow> control option \<Rightarrow> control option \<Rightarrow> int list" where
  \<comment> \<open>the \<open>isinstance(text, str)\<close> branch\<close>
  "encode self text prepend_tok append_tok = encode_one self text prepend_tok append_tok"

definition encode_batch :: "tokenizer \<Rightarrow> string list \<Rightarrow> control option \<Rightarrow> control option \<Rightarrow> int list list" where
  \<comment> \<open>the \<open>isinstance(text, list)\<close> branch\<close>
  "encode_batch self texts prepend_tok append_tok =
     map (\<lambda>t. encode_one self t prepend_tok append_tok) texts"

fun decode_parts :: "tokenizer \<Rightarrow> int list \<Rightarrow> string list \<Rightarrow> string list" where
  "decode_parts self [] parts = parts"
| "decode_parts self (idx # ids) parts =
     (if id_to_special_token self idx \<noteq> None then decode_parts self ids parts
      else if 0 \<le> idx \<and> idx \<le> 65535 then decode_parts self ids (parts @ [format_04x (nat idx)])
      else decode_parts self ids parts)"

definition decode :: "tokenizer \<Rightarrow> int list \<Rightarrow> string" where
  "decode self ids =
     (let parts = decode_parts self ids [] in
      if length parts = 0 then []
      else (let full_ip = str_join '':'' parts in
            case IPv6Address full_ip of
              None \<Rightarrow> full_ip
            | Some addr \<Rightarrow> (case ipv6_str addr of None \<Rightarrow> full_ip | Some s \<Rightarrow> s)))"

record message =
  role :: string
  content :: string

definition slice_to :: "int \<Rightarrow> 'a list \<Rightarrow> 'a list" where
  \<comment> \<open>the slice \<open>xs[:m]\<close>; a negative bound counts from the end\<close>
  "slice_to m xs = (if 0 \<le> m then take (nat m) xs else take (length xs - nat (- m)) xs)"

fun render_messages :: "tokenizer \<Rightarrow> message list \<Rightarrow> int list \<times> int list \<Rightarrow> int list \<times> int list" where
  "render_messages self [] (ids, mask_list) = (ids, mask_list)"
| "render_messages self (msg # rest) (ids, mask_list) =
     (let encoded_ip = encode self (content msg) None None in
      if role msg = ''user'' then
        render_messages self rest (ids @ encoded_ip, mask_list @ replicate (length encoded_ip) 0)
      else if role msg = ''assistant'' then
        render_messages self rest
          (ids @ encoded_ip @ [eos_token_id self], mask_list @ replicate (length encoded_ip) 1 @ [1])
      else render_messages self rest (ids, mask_list))"

definition render_conversation :: "tokenizer \<Rightarrow> message list \<Rightarrow> int \<Rightarrow> int list \<times> int list" where
  \<comment> \<open>the second argument is \<open>conversation["messages"]\<close>\<close>
  "render_conversation self messages max_tokens =
     (case render_messages self messages ([get_bos_token_id self], [0]) of
        (ids, mask_list) \<Rightarrow> (slice_to max_tokens ids, slice_to max_tokens mask_list))"

definition render_for_completion :: "tokenizer \<Rightarrow> message list \<Rightarrow> int list" where
  "render_for_completion self messages = [get_bos_token_id self]"

text \<open>
  The rendering as the specification words it: every token paired with its mask bit; a
  prompting message gives its body tokens with 0, a generating message its body tokens with 1
  and then the end token with 1; the start token with 0 leads.
\<close>

definition spec_message :: "tokenizer \<Rightarrow> message \<Rightarrow> (int \<times> int) list" where
  "spec_message self msg =
     (if role msg = ''user'' then map (\<lambda>t. (t, 0)) (encode self (content msg) None None)
      else if role msg = ''assistant'' then
        map (\<lambda>t. (t, 1)) (encode self (content msg) None None) @ [(eos_token_id self, 1)]
      else [])"

definition spec_render :: "tokenizer \<Rightarrow> message list \<Rightarrow> (int \<times> int) list" where
  "spec_render self messages = (bos_token_id self, 0) # concat (map (spec_message self) messages)"

section \<open>The verifier (\<open>nanochat/scanner.py\<close>)\<close>

text \<open>
  What \<open>subprocess.check_call(["ping6", "-c", "1", ip], timeout=0.5)\<close> can do: return (exit
  status 0), raise \<open>CalledProcessError\<close> (another exit status), raise \<open>TimeoutExpired\<close>, or
  raise something else (an \<open>OSError\<close> when \<open>ping6\<close> cannot be executed, a \<open>ValueError\<close> for an
  argument with a null byte).
\<close>

datatype check_call = Returns | CalledProcessError | TimeoutExpired | Raises error

definition ping_single :: "(string \<Rightarrow> check_call) \<Rightarrow> string \<Rightarrow> error + bool" where
  "ping_single call ip =
     (case call ip of
        Returns \<Rightarrow> Inr True
      | CalledProcessError \<Rightarrow> Inr False
      | TimeoutExpired \<Rightarrow> Inr False
      | Raises e \<Rightarrow> Inl e)"

record scanner =
  use_mock :: bool

text \<open>
  The loop over \<open>as_completed(future_to_ip)\<close>: \<open>future.result()\<close> re-raises what the task
  raised, which ends \<open>verify_batch\<close>; otherwise the score is stored under the address.
\<close>

fun collect :: "(string \<times> (error + bool)) list \<Rightarrow> (string \<rightharpoonup> real) \<Rightarrow> error + (string \<rightharpoonup> real)" where
  "collect [] ip_status = Inr ip_status"
| "collect ((ip, result) # rest) ip_status =
     (case result of
        Inl e \<Rightarrow> Inl e
      | Inr is_active \<Rightarrow> collect rest (ip_status(ip \<mapsto> (if is_active then 1 else 0))))"

text \<open>
  \<open>random\<close> gives the successive values of \<open>random.random()\<close>; \<open>calls j\<close> is the behaviour of
  \<open>check_call\<close> inside the \<open>j\<close>-th submitted task; \<open>order\<close> lists the task numbers in the
  order in which \<open>as_completed\<close> yields them.
\<close>

definition verify_batch ::
  "scanner \<Rightarrow> (nat \<Rightarrow> real) \<Rightarrow> (nat \<Rightarrow> string \<Rightarrow> check_call) \<Rightarrow> nat list \<Rightarrow> string list \<Rightarrow> error + real list" where
  "verify_batch self random calls order ip_list =
     (if use_mock self then
        Inr (map (\<lambda>i. if random i < 0.1 then 1 else 0) [0 ..< length ip_list])
      else
        (let future_to_ip = map (\<lambda>j. (ip_list ! j, ping_single (calls j) (ip_list ! j))) order
         in case collect future_to_ip Map.empty of
              Inl e \<Rightarrow> Inl e
            | Inr ip_status \<Rightarrow>
                Inr (map (\<lambda>ip. case ip_status ip of None \<Rightarrow> 0 | Some v \<Rightarrow> v) ip_list)))"

definition score :: "check_call \<Rightarrow> real" where
  \<comment> \<open>the score of a task whose probe ended as given (no score when it raised otherwise)\<close>
  "score c = (if c = Returns then 1 else 0)"

definition ping6_missing :: "nat \<Rightarrow> string \<Rightarrow> check_call" where
  \<comment> \<open>a host without the \<open>ping6\<close> executable\<close>
  "ping6_missing j ip = Raises OSError"

definition no_random :: "nat \<Rightarrow> real" where
  "no_random i = 1"

definition last_completed :: "string list \<Rightarrow> nat list \<Rightarrow> string \<Rightarrow> nat option" where
  \<comment> \<open>the number of the task that probed \<open>ip\<close> and completed last (the first such task in the
      reversed completion order): the one whose score \<open>ip_status[ip]\<close> keeps\<close>
  "last_completed ip_list order ip = find (\<lambda>j. ip_list ! j = ip) (rev order)"

definition first_answers :: "nat \<Rightarrow> string \<Rightarrow> check_call" where
  \<comment> \<open>a lossy network: the probe of the first task is answered, every later probe times out\<close>
  "first_answers j ip = (if j = 0 then Returns else TimeoutExpired)"

definition only_loopback :: "nat \<Rightarrow> string \<Rightarrow> check_call" where
  \<comment> \<open>a network where \<open>::1\<close> answers and every other probe times out\<close>
  "only_loopback j ip = (if ip = ''::1'' then Returns else TimeoutExpired)"

section \<open>The data preparation (\<open>dev/prepare_ipv6_parquet.py\<close>)\<close>

definition NUM_BUCKETS :: nat where
  "NUM_BUCKETS = 100"

definition DOCS_PER_SHARD :: nat where
  "DOCS_PER_SHARD = 200000"

definition expand_ipv6 :: "string \<Rightarrow> string option" where
  "expand_ipv6 ip_str = (case IPv6Address ip_str of None \<Rightarrow> None | Some a \<Rightarrow> exploded a)"

definition always_zero :: "nat \<Rightarrow> nat" where
  \<comment> \<open>a random source whose every raw number is 0\<close>
  "always_zero k = 0"

definition randint :: "nat \<Rightarrow> nat \<Rightarrow> nat \<Rightarrow> nat" where
  \<comment> \<open>\<open>random.randint(a, b)\<close> for \<open>a \<le> b\<close>, from a raw random number \<open>r\<close>\<close>
  "randint a b r = a + r mod (b - a + 1)"

text \<open>
  Step 1. The bucket files are a list of their contents. \<open>bucket_write\<close> is the text one input
  line adds (\<open>None\<close> at \<open>continue\<close>). \<open>random\<close> is the stream of raw random numbers and \<open>k\<close>
  counts the draws made so far; every line that is kept makes one draw.
\<close>

definition bucket_write :: "string \<Rightarrow> string option" where
  "bucket_write line =
     (let line = str_strip line in
      if line = [] \<or> startswith line ''#'' then None else Some (line @ [CHR 0x0A]))"

fun distribute :: "nat \<Rightarrow> (nat \<Rightarrow> nat) \<Rightarrow> nat \<Rightarrow> string list \<Rightarrow> string list \<Rightarrow> string list" where
  "distribute n random k [] bucket_files = bucket_files"
| "distribute n random k (line # fin) bucket_files =
     (case bucket_write line of
        None \<Rightarrow> distribute n random k fin bucket_files
      | Some text \<Rightarrow>
          (let bucket_idx = randint 0 (n - 1) (random k)
           in distribute n random (k + 1) fin
                (bucket_files[bucket_idx := bucket_files ! bucket_idx @ text])))"

text \<open>
  Step 2 for one bucket. The set \<open>unique_ips\<close> is a list without repetition; \<open>random.shuffle\<close>
  is the library's loop \<open>for i in reversed(range(1, len(x))): j = randbelow(i + 1); swap\<close>.
\<close>

fun unique_ips :: "string list \<Rightarrow> string list \<Rightarrow> string list" where
  "unique_ips [] seen = seen"
| "unique_ips (line # raw_lines) seen =
     (case expand_ipv6 (str_strip line) of
        None \<Rightarrow> unique_ips raw_lines seen
      | Some expanded \<Rightarrow>
          if expanded \<noteq> [] then unique_ips raw_lines (List.insert expanded seen)
          else unique_ips raw_lines seen)"

fun shuffle :: "(nat \<Rightarrow> nat) \<Rightarrow> nat \<Rightarrow> nat \<Rightarrow> 'a list \<Rightarrow> 'a list" where
  "shuffle random k 0 x = x"
| "shuffle random k (Suc i) x =
     (let j = random k mod (Suc i + 1)
      in shuffle random (k + 1) i (x[Suc i := x ! j, j := x ! Suc i]))"

record out_dir =
  shards :: "(nat \<times> string list) list"
  shard_index :: nat
  total_processed_ips :: nat

partial_function (option) write_shards :: "nat \<Rightarrow> string list \<Rightarrow> nat \<Rightarrow> out_dir \<Rightarrow> out_dir option" where
  "write_shards docs ip_list current_idx out =
     (if current_idx < length ip_list then
        (let chunk = take docs (drop current_idx ip_list);
             out = (if length chunk > 0
                    then out\<lparr>shards := shards out @ [(shard_index out, chunk)],
                             shard_index := shard_index out + 1,
                             total_processed_ips := total_processed_ips out + length chunk\<rparr>
                    else out)
         in write_shards docs ip_list (current_idx + docs) out)
      else Some out)"

definition bucket_ip_list :: "(nat \<Rightarrow> nat) \<Rightarrow> string list \<Rightarrow> string list" where
  \<comment> \<open>\<open>ip_list\<close> after \<open>random.shuffle(ip_list)\<close>\<close>
  "bucket_ip_list random raw_lines =
     (let ip_list = unique_ips raw_lines [] in shuffle random 0 (length ip_list - 1) ip_list)"

definition reduce_bucket :: "nat \<Rightarrow> (nat \<Rightarrow> nat) \<Rightarrow> string list \<Rightarrow> out_dir \<Rightarrow> out_dir option" where
  "reduce_bucket docs random raw_lines out =
     write_shards docs (bucket_ip_list random raw_lines) 0 out"

text \<open>The partition of a sequence into consecutive chunks of \<open>c\<close> elements, the last one shorter
  when \<open>c\<close> does not divide the length: what the shards of one bucket are compared with.\<close>

function chunks :: "nat \<Rightarrow> 'a list \<Rightarrow> 'a list list" where
  "chunks c xs = (if xs = [] \<or> c = 0 then [] else take c xs # chunks c (drop c xs))"
  by pat_completeness auto
termination
  by (relation "measure (\<lambda>(c, xs). length xs)") auto

declare chunks.simps [simp del]

definition empty_out :: out_dir where
  "empty_out = \<lparr>shards = [], shard_index = 0, total_processed_ips = 0\<rparr>"

definition new_shards :: "out_dir \<Rightarrow> out_dir \<Rightarrow> string list list" where
  \<comment> \<open>the rows of the shards written between two states of the output\<close>
  "new_shards out out' = map snd (drop (length (shards out)) (shards out'))"

section \<open>Auxiliary notions for the address parser\<close>

text \<open>
  The value of a list of hextets, the invariant of the zero-run scan of \<open>_compress_hextets\<close>,
  and hexadecimal digits at a fixed width.
\<close>

definition int_of_hextets :: "nat list \<Rightarrow> nat" where
  "int_of_hextets hs = foldl (\<lambda>a h. a * 65536 + h) 0 hs"


primrec hexw :: "nat \<Rightarrow> nat \<Rightarrow> string" where
  "hexw 0 n = []"
| "hexw (Suc k) n = hexw k (n div 16) @ [hex_digit (n mod 16)]"

section \<open>Evaluation on concrete inputs\<close>

lemma replicate_unfold: "0 < n \<Longrightarrow> replicate n x = x # replicate (n - 1) x"
  by (cases n) simp_all

lemmas str_defs = replicate_unfold isspace_def str_strip_def startswith_def hex_digit_def
  format_x.simps zero_pad_def format_04x_def format_032x_def hex_value_def int_base16_def
  is_digit_def int_base10_def

lemmas ip_defs = parse_octet_def ipv4_int_from_string_def IPv4Address_def HEX_DIGITS_def
  parse_hextet_def v4_suffix_def hi_lo_skipped_def ip_int_from_string_def compress_hextets_def
  ALL_ONES_def hex_slices_def string_from_ip_int_def split_scope_id_def IPv6Address_def
  ipv6_str_def exploded_def enumerate_eq_zip

section \<open>The tokenizer's constructor and control tokens\<close>

lemma get_tokenizer_fields:
  assumes "get_tokenizer = Inr self"
  shows "bos_token_id self = 65536" and "eos_token_id self = 65537" and "pad_token_id self = 65538"
    and "vocab_size self = 65543"
    and "special_tokens_map self =
           [''<|bos|>'' \<mapsto> 65536, ''<|eos|>'' \<mapsto> 65537, ''<|pad|>'' \<mapsto> 65538,
            ''<|user_start|>'' \<mapsto> 65539, ''<|user_end|>'' \<mapsto> 65540,
            ''<|assistant_start|>'' \<mapsto> 65541, ''<|assistant_end|>'' \<mapsto> 65542]"
    and "id_to_special_token self =
           [65536 \<mapsto> ''<|bos|>'', 65537 \<mapsto> ''<|eos|>'', 65538 \<mapsto> ''<|pad|>'',
            65539 \<mapsto> ''<|user_start|>'', 65540 \<mapsto> ''<|user_end|>'',
            65541 \<mapsto> ''<|assistant_start|>'', 65542 \<mapsto> ''<|assistant_end|>'']"
  using assms
  by (auto simp add: get_tokenizer_def enumerate_eq_zip SPECIAL_TOKENS_def TOKEN_OFFSET_def
        getitem_def upt_rec)

lemma get_tokenizer_ok: "\<exists>self. get_tokenizer = Inr self"
  by (simp add: get_tokenizer_def enumerate_eq_zip SPECIAL_TOKENS_def TOKEN_OFFSET_def
        getitem_def upt_rec)

lemma special_id_iff:
  assumes "get_tokenizer = Inr self"
  shows "id_to_special_token self idx \<noteq> None \<longleftrightarrow> 65536 \<le> idx \<and> idx \<le> 65542"
  unfolding get_tokenizer_fields [OF assms] by auto

text \<open>
  C10. On the constructed tokenizer, \<open>encode_special\<close> of a string that is none of the seven
  special-token names is the end-of-sequence id 65537 (no error, no missing value), and each
  of the seven names gives its own id, 65536 plus its position.
\<close>

theorem encode_special_default:
  assumes "get_tokenizer = Inr self"
  shows "(s \<notin> set SPECIAL_TOKENS \<longrightarrow> encode_special self s = 65537)
       \<and> (\<forall>i < length SPECIAL_TOKENS. encode_special self (SPECIAL_TOKENS ! i) = 65536 + int i)"
proof -
  have "\<forall>i < 7. encode_special self (SPECIAL_TOKENS ! i) = 65536 + int i"
    unfolding encode_special_def get_tokenizer_fields [OF assms]
    by (simp add: SPECIAL_TOKENS_def All_less_Suc numeral_eq_Suc del: upt_Suc)
  moreover have "s \<notin> set SPECIAL_TOKENS \<longrightarrow> encode_special self s = 65537"
    unfolding encode_special_def get_tokenizer_fields [OF assms]
    by (simp add: SPECIAL_TOKENS_def)
  ultimately show ?thesis by (simp add: SPECIAL_TOKENS_def)
qed

theorem encode_special_default_witness:
  "\<exists>self. get_tokenizer = Inr self
     \<and> ''<|system|>'' \<notin> set SPECIAL_TOKENS \<and> encode_special self ''<|system|>'' = 65537
     \<and> encode_special self ''<|pad|>'' = 65538"
proof -
  obtain self where s: "get_tokenizer = Inr self" using get_tokenizer_ok by blast
  have n: "''<|system|>'' \<notin> set SPECIAL_TOKENS" by (simp add: SPECIAL_TOKENS_def)
  have "(2::nat) < length SPECIAL_TOKENS" by (simp add: SPECIAL_TOKENS_def)
  with encode_special_default [OF s, of "''<|system|>''"] n
  have "encode_special self ''<|system|>'' = 65537"
    and "encode_special self (SPECIAL_TOKENS ! 2) = 65536 + int 2"
    by blast+
  then show ?thesis using s n by (auto simp: SPECIAL_TOKENS_def)
qed

section \<open>The worked example\<close>

text \<open>
  C8. Encoding \<open>"2001:db8::1"\<close> with no prepend and no append gives exactly the eight tokens
  \<open>[0x2001, 0x0db8, 0, 0, 0, 0, 0, 1]\<close>, and decoding that sequence gives \<open>"2001:db8::1"\<close>.
\<close>

theorem example_2001_db8:
  assumes "get_tokenizer = Inr self"
  shows "encode self ''2001:db8::1'' None None = [0x2001, 0x0db8, 0, 0, 0, 0, 0, 1]
       \<and> decode self [0x2001, 0x0db8, 0, 0, 0, 0, 0, 1] = ''2001:db8::1''"
proof -
  have "encode self ''2001:db8::1'' None None = [0x2001, 0x0db8, 0, 0, 0, 0, 0, 1]"
    by (simp add: encode_def encode_one_def encode_body_def str_defs ip_defs)
  moreover have "decode_parts self [0x2001, 0x0db8, 0, 0, 0, 0, 0, 1] [] =
      [''2001'', ''0db8'', ''0000'', ''0000'', ''0000'', ''0000'', ''0000'', ''0001'']"
    by (simp add: get_tokenizer_fields [OF assms] str_defs)
  then have "decode self [0x2001, 0x0db8, 0, 0, 0, 0, 0, 1] = ''2001:db8::1''"
    unfolding decode_def by (simp add: str_defs ip_defs)
  ultimately show ?thesis by simp
qed

theorem example_2001_db8_witness:
  "\<exists>self. get_tokenizer = Inr self
     \<and> encode self ''2001:db8::1'' None None = [0x2001, 0x0db8, 0, 0, 0, 0, 0, 1]
     \<and> decode self [0x2001, 0x0db8, 0, 0, 0, 0, 0, 1] = ''2001:db8::1''"
proof -
  obtain self where s: "get_tokenizer = Inr self" using get_tokenizer_ok by blast
  from example_2001_db8 [OF s] s show ?thesis by blast
qed

section \<open>Role-aware rendering\<close>

lemma render_messages_spec:
  "render_messages self messages (ids, ms) =
     (ids @ map fst (concat (map (spec_message self) messages)),
      ms @ map snd (concat (map (spec_message self) messages)))"
proof (induction messages arbitrary: ids ms)
  case Nil
  then show ?case by simp
next
  case (Cons msg rest)
  show ?case
    by (simp add: Cons.IH spec_message_def Let_def map_replicate_const comp_def)
qed

text \<open>
  C5. For every conversation and maximum length \<open>m\<close> (a length, so \<open>0 \<le> m\<close>),
  \<open>render_conversation\<close> returns the first \<open>m\<close> tokens and the first \<open>m\<close> mask bits of the
  sequence the specification describes: the start token with mask 0, then for each message its
  encoded body with mask 0 for role \<open>user\<close>, with mask 1 for role \<open>assistant\<close> followed by
  the end token with mask 1. Tokens and mask have the same length, at most \<open>m\<close>.
\<close>

theorem render_conversation_spec:
  assumes "0 \<le> m"
  shows "fst (render_conversation self messages m) = map fst (take (nat m) (spec_render self messages))
       \<and> snd (render_conversation self messages m) = map snd (take (nat m) (spec_render self messages))
       \<and> length (fst (render_conversation self messages m)) = length (snd (render_conversation self messages m))
       \<and> int (length (fst (render_conversation self messages m))) \<le> m"
proof -
  let ?body = "concat (map (spec_message self) messages)"
  have r: "render_conversation self messages m =
      (take (nat m) (map fst (spec_render self messages)),
       take (nat m) (map snd (spec_render self messages)))"
    using assms
    by (simp add: render_conversation_def render_messages_spec slice_to_def spec_render_def
          get_bos_token_id_def)
  have "int (min (length (spec_render self messages)) (nat m)) \<le> m"
    using assms by linarith
  then show ?thesis
    unfolding r by (simp add: take_map)
qed

theorem render_conversation_spec_witness:
  "\<exists>self. get_tokenizer = Inr self \<and> (0::int) \<le> 10
     \<and> render_conversation self
          [\<lparr>role = ''user'', content = ''::1''\<rparr>, \<lparr>role = ''assistant'', content = ''::2''\<rparr>] 10
        = ([65536, 0, 0, 0, 0, 0, 0, 0, 1, 0], [0, 0, 0, 0, 0, 0, 0, 0, 0, 1])"
proof -
  obtain self where s: "get_tokenizer = Inr self" using get_tokenizer_ok by blast
  let ?c = "[\<lparr>role = ''user'', content = ''::1''\<rparr>, \<lparr>role = ''assistant'', content = ''::2''\<rparr>]"
  have e1: "encode self ''::1'' None None = [0, 0, 0, 0, 0, 0, 0, 1]"
    by (simp add: encode_def encode_one_def encode_body_def str_defs ip_defs)
  have e2: "encode self ''::2'' None None = [0, 0, 0, 0, 0, 0, 0, 2]"
    by (simp add: encode_def encode_one_def encode_body_def str_defs ip_defs)
  have sp: "take (nat 10) (spec_render self ?c) =
      [(65536, 0), (0, 0), (0, 0), (0, 0), (0, 0), (0, 0), (0, 0), (0, 0), (1, 0), (0, 1)]"
    by (simp add: spec_render_def spec_message_def e1 e2 get_tokenizer_fields [OF s])
  have "(0::int) \<le> 10" by simp
  from render_conversation_spec [OF this, of self ?c] sp
  have "fst (render_conversation self ?c 10) = [65536, 0, 0, 0, 0, 0, 0, 0, 1, 0]"
    and "snd (render_conversation self ?c 10) = [0, 0, 0, 0, 0, 0, 0, 0, 0, 1]"
    by simp_all
  then have "render_conversation self ?c 10
      = ([65536, 0, 0, 0, 0, 0, 0, 0, 1, 0], [0, 0, 0, 0, 0, 0, 0, 0, 0, 1])"
    by (simp add: prod_eq_iff)
  with s show ?thesis by auto
qed

section \<open>The verifier and the completion order\<close>

lemma find_append_cases:
  "find P (xs @ ys) = (case find P xs of None \<Rightarrow> find P ys | Some x \<Rightarrow> Some x)"
  by (induction xs) auto

lemma ping_single_score:
  assumes "\<forall>e. call ip \<noteq> Raises e"
  shows "ping_single call ip = Inr (call ip = Returns)"
  using assms by (cases "call ip") (auto simp: ping_single_def)

lemma collect_scores:
  assumes "\<forall>j \<in> set order. \<forall>e. calls j (ip_list ! j) \<noteq> Raises e"
  shows "collect (map (\<lambda>j. (ip_list ! j, ping_single (calls j) (ip_list ! j))) order) ip_status =
     Inr (\<lambda>ip. case find (\<lambda>j. ip_list ! j = ip) (rev order) of
                 None \<Rightarrow> ip_status ip
               | Some j \<Rightarrow> Some (score (calls j (ip_list ! j))))"
  using assms
proof (induction order arbitrary: ip_status)
  case Nil
  then show ?case by simp
next
  case (Cons j rest)
  have p: "ping_single (calls j) (ip_list ! j) = Inr (calls j (ip_list ! j) = Returns)"
    using Cons.prems by (simp add: ping_single_score)
  have r: "\<forall>j \<in> set rest. \<forall>e. calls j (ip_list ! j) \<noteq> Raises e"
    using Cons.prems by simp
  let ?g = "\<lambda>ip_status ord ip. case find (\<lambda>j. ip_list ! j = ip) (rev ord) of
                 None \<Rightarrow> ip_status ip
               | Some j \<Rightarrow> Some (score (calls j (ip_list ! j)))"
  let ?st = "ip_status(ip_list ! j \<mapsto> (if calls j (ip_list ! j) = Returns then 1 else 0))"
  have "?g ?st rest ip = ?g ip_status (j # rest) ip" for ip
    by (cases "find (\<lambda>j. ip_list ! j = ip) (rev rest)")
       (auto simp: find_append_cases score_def)
  then have eq: "?g ?st rest = ?g ip_status (j # rest)" by blast
  have "collect (map (\<lambda>j. (ip_list ! j, ping_single (calls j) (ip_list ! j))) (j # rest)) ip_status
      = collect (map (\<lambda>j. (ip_list ! j, ping_single (calls j) (ip_list ! j))) rest) ?st"
    by (simp add: p)
  also have "\<dots> = Inr (?g ?st rest)"
    by (rule Cons.IH [where ip_status = ?st, OF r])
  also have "\<dots> = Inr (?g ip_status (j # rest))"
    by (simp only: eq)
  finally show ?case .
qed

lemma collect_raises:
  assumes "j \<in> set order" and "calls j (ip_list ! j) = Raises e"
  shows "\<exists>e'. collect (map (\<lambda>j. (ip_list ! j, ping_single (calls j) (ip_list ! j))) order) ip_status
           = Inl e'"
  using assms
proof (induction order arbitrary: ip_status)
  case Nil
  then show ?case by simp
next
  case (Cons i rest)
  show ?case
  proof (cases "ping_single (calls i) (ip_list ! i)")
    case (Inl e')
    then show ?thesis by simp
  next
    case (Inr b)
    then have "i \<noteq> j" using Cons.prems(2) by (auto simp: ping_single_def)
    then have "j \<in> set rest" using Cons.prems(1) by simp
    from Cons.IH [OF this Cons.prems(2)] Inr show ?thesis by simp
  qed
qed

lemma verify_batch_scores:
  assumes "\<not> use_mock self"
    and "\<forall>j \<in> set order. \<forall>e. calls j (ip_list ! j) \<noteq> Raises e"
  shows "verify_batch self random calls order ip_list =
     Inr (map (\<lambda>ip. case find (\<lambda>j. ip_list ! j = ip) (rev order) of
                      None \<Rightarrow> 0
                    | Some j \<Rightarrow> score (calls j (ip_list ! j))) ip_list)"
  using assms(1)
  by (simp add: verify_batch_def collect_scores [where calls = calls and ip_list = ip_list, OF assms(2)]
        split: option.splits cong: map_cong)

lemma find_SomeD: "find P xs = Some x \<Longrightarrow> x \<in> set xs \<and> P x"
  by (induction xs) (auto split: if_splits)

lemma find_last_probe:
  assumes "mset order = mset [0 ..< length ip_list]" and "i < length ip_list"
  shows "\<exists>j < length ip_list. ip_list ! j = ip_list ! i
           \<and> find (\<lambda>j. ip_list ! j = ip_list ! i) (rev order) = Some j"
proof -
  have s: "set order = {0 ..< length ip_list}"
    using assms(1) by (metis mset_eq_setD set_upt)
  then have "i \<in> set (rev order)" using assms(2) by simp
  then have "find (\<lambda>j. ip_list ! j = ip_list ! i) (rev order) \<noteq> None"
    by (auto simp: find_None_iff)
  then obtain j where j: "find (\<lambda>j. ip_list ! j = ip_list ! i) (rev order) = Some j"
    by blast
  then have "j \<in> set (rev order)" and "ip_list ! j = ip_list ! i"
    by (auto dest: find_SomeD)
  with s j show ?thesis by auto
qed

lemma find_own_probe:
  assumes "distinct ip_list" and "mset order = mset [0 ..< length ip_list]"
    and "i < length ip_list"
  shows "find (\<lambda>j. ip_list ! j = ip_list ! i) (rev order) = Some i"
proof -
  from find_last_probe [OF assms(2,3)] obtain j where j: "j < length ip_list"
    "ip_list ! j = ip_list ! i" "find (\<lambda>j. ip_list ! j = ip_list ! i) (rev order) = Some j"
    by blast
  from assms(1,3) j(1,2) have "j = i" by (simp add: nth_eq_iff_index_eq)
  with j(3) show ?thesis by simp
qed

lemma verify_batch_last_probe:
  assumes "\<not> use_mock self"
    and "mset order = mset [0 ..< length ip_list]"
    and "\<forall>j < length ip_list. \<forall>e. calls j (ip_list ! j) \<noteq> Raises e"
  shows "\<exists>res. verify_batch self random calls order ip_list = Inr res
           \<and> length res = length ip_list
           \<and> (\<forall>i < length ip_list. \<exists>j < length ip_list. ip_list ! j = ip_list ! i
                  \<and> last_completed ip_list order (ip_list ! i) = Some j
                  \<and> res ! i = score (calls j (ip_list ! j)))"
proof -
  let ?f = "\<lambda>ip. case find (\<lambda>j. ip_list ! j = ip) (rev order) of
                    None \<Rightarrow> 0 | Some j \<Rightarrow> score (calls j (ip_list ! j))"
  have s: "set order = {0 ..< length ip_list}"
    using assms(2) by (metis mset_eq_setD set_upt)
  with assms(3) have "\<forall>j \<in> set order. \<forall>e. calls j (ip_list ! j) \<noteq> Raises e"
    by simp
  from verify_batch_scores [where calls = calls and ip_list = ip_list, OF assms(1) this]
  have v: "verify_batch self random calls order ip_list = Inr (map ?f ip_list)" .
  have "\<exists>j < length ip_list. ip_list ! j = ip_list ! i
          \<and> last_completed ip_list order (ip_list ! i) = Some j
          \<and> map ?f ip_list ! i = score (calls j (ip_list ! j))"
    if i: "i < length ip_list" for i
  proof -
    from find_last_probe [OF assms(2) i] obtain j where j: "j < length ip_list"
      "ip_list ! j = ip_list ! i"
      "find (\<lambda>j. ip_list ! j = ip_list ! i) (rev order) = Some j" by blast
    then have "map ?f ip_list ! i = score (calls j (ip_list ! j))" using i by simp
    with j show ?thesis unfolding last_completed_def by blast
  qed
  with v show ?thesis
    by (intro exI [of _ "map ?f ip_list"]) simp
qed

text \<open>
  With the same address twice in the list and probes that disagree, the two completion
  orders give different results: the score of both positions is the score of whichever probe
  of that address completed last, not of the probe of its own position.
\<close>

theorem completion_order_counterexample:
  "verify_batch \<lparr>use_mock = False\<rparr> no_random first_answers [0, 1] [''::1'', ''::1''] = Inr [0, 0]
   \<and> verify_batch \<lparr>use_mock = False\<rparr> no_random first_answers [1, 0] [''::1'', ''::1''] = Inr [1, 1]"
  by (simp add: verify_batch_def ping_single_def first_answers_def)

text \<open>
  C2, amended. For every input list of \<open>k\<close> address strings and every order in which the
  probes complete: in mock mode \<open>verify_batch\<close> returns a list of exactly \<open>k\<close> scores, each
  0 or 1, drawn at random; outside mock mode, when every probe ends (exit status 0, another
  exit status, or time-out), it returns a list of exactly \<open>k\<close> scores, each 0 or 1, where
  scores are kept per address string, so the \<open>i\<close>-th score is the score of the probe of the
  \<open>i\<close>-th address that completed last. When the addresses of the list are pairwise distinct,
  the \<open>i\<close>-th score is the score of the \<open>i\<close>-th probe, whatever the completion order.
\<close>

theorem verify_batch_input_order:
  assumes "mset order = mset [0 ..< length ip_list]"
  shows "(use_mock self \<longrightarrow>
            (\<exists>res. verify_batch self random calls order ip_list = Inr res
               \<and> length res = length ip_list
               \<and> (\<forall>i < length ip_list. res ! i = 0 \<or> res ! i = 1)))
       \<and> (\<not> use_mock self
            \<and> (\<forall>j < length ip_list. \<forall>e. calls j (ip_list ! j) \<noteq> Raises e) \<longrightarrow>
            (\<exists>res. verify_batch self random calls order ip_list = Inr res
               \<and> length res = length ip_list
               \<and> (\<forall>i < length ip_list. (res ! i = 0 \<or> res ! i = 1)
                     \<and> (\<exists>j < length ip_list. ip_list ! j = ip_list ! i
                            \<and> last_completed ip_list order (ip_list ! i) = Some j
                            \<and> res ! i = score (calls j (ip_list ! j))))
               \<and> (distinct ip_list \<longrightarrow>
                     (\<forall>i < length ip_list. res ! i = score (calls i (ip_list ! i))))))"
proof (intro conjI impI)
  assume "use_mock self"
  then show "\<exists>res. verify_batch self random calls order ip_list = Inr res
      \<and> length res = length ip_list
      \<and> (\<forall>i < length ip_list. res ! i = 0 \<or> res ! i = 1)"
    by (simp add: verify_batch_def)
next
  assume h: "\<not> use_mock self
      \<and> (\<forall>j < length ip_list. \<forall>e. calls j (ip_list ! j) \<noteq> Raises e)"
  then have m: "\<not> use_mock self"
    and ok: "\<forall>j < length ip_list. \<forall>e. calls j (ip_list ! j) \<noteq> Raises e"
    by simp_all
  from verify_batch_last_probe [where calls = calls and ip_list = ip_list, OF m assms ok]
  obtain res where r: "verify_batch self random calls order ip_list = Inr res"
    "length res = length ip_list"
    and l: "\<forall>i < length ip_list. \<exists>j < length ip_list. ip_list ! j = ip_list ! i
              \<and> last_completed ip_list order (ip_list ! i) = Some j
              \<and> res ! i = score (calls j (ip_list ! j))"
    by blast
  have a: "(res ! i = 0 \<or> res ! i = 1)
        \<and> (\<exists>j < length ip_list. ip_list ! j = ip_list ! i
               \<and> last_completed ip_list order (ip_list ! i) = Some j
               \<and> res ! i = score (calls j (ip_list ! j)))"
    if i: "i < length ip_list" for i
  proof -
    from l i obtain j where j: "j < length ip_list" "ip_list ! j = ip_list ! i"
      "last_completed ip_list order (ip_list ! i) = Some j"
      "res ! i = score (calls j (ip_list ! j))" by blast
    have "score (calls j (ip_list ! j)) = 0 \<or> score (calls j (ip_list ! j)) = 1"
      by (simp add: score_def)
    with j show ?thesis by auto
  qed
  have b: "res ! i = score (calls i (ip_list ! i))"
    if d: "distinct ip_list" and i: "i < length ip_list" for i
  proof -
    from l i obtain j where j: "last_completed ip_list order (ip_list ! i) = Some j"
      "res ! i = score (calls j (ip_list ! j))" by blast
    from find_own_probe [OF d assms i] j(1) have "j = i"
      by (simp add: last_completed_def)
    with j(2) show ?thesis by simp
  qed
  from r a b
  show "\<exists>res. verify_batch self random calls order ip_list = Inr res
      \<and> length res = length ip_list
      \<and> (\<forall>i < length ip_list. (res ! i = 0 \<or> res ! i = 1)
            \<and> (\<exists>j < length ip_list. ip_list ! j = ip_list ! i
                   \<and> last_completed ip_list order (ip_list ! i) = Some j
                   \<and> res ! i = score (calls j (ip_list ! j))))
      \<and> (distinct ip_list \<longrightarrow>
            (\<forall>i < length ip_list. res ! i = score (calls i (ip_list ! i))))"
    by blast
qed

theorem verify_batch_input_order_witness:
  "\<exists>res. verify_batch \<lparr>use_mock = False\<rparr> no_random only_loopback [1, 0] [''::1'', ''::2'']
            = Inr res
         \<and> length res = 2 \<and> res ! 0 = 1 \<and> res ! 1 = 0"
proof -
  let ?ips = "[''::1'', ''::2'']"
  have 1: "\<not> use_mock \<lparr>use_mock = False\<rparr>" by simp
  have 2: "mset [1, 0] = mset [0 ..< length ?ips]"
    by (simp add: upt_rec)
  have 3: "\<forall>j < length ?ips. \<forall>e. only_loopback j (?ips ! j) \<noteq> Raises e"
    by (simp add: only_loopback_def)
  have 4: "distinct ?ips" by simp
  from verify_batch_input_order [where calls = only_loopback and ip_list = ?ips
      and random = no_random and self = "\<lparr>use_mock = False\<rparr>", OF 2] 1 3 4
  obtain res where r: "verify_batch \<lparr>use_mock = False\<rparr> no_random only_loopback [1, 0] ?ips = Inr res"
    "length res = 2"
    "\<forall>i < length ?ips. res ! i = score (only_loopback i (?ips ! i))"
    by auto
  from r(3) have "res ! 0 = 1" and "res ! 1 = 0"
    by (simp_all add: score_def only_loopback_def)
  with r(1,2) show ?thesis by blast
qed

section \<open>Probe failures\<close>

text \<open>
  Where \<open>ping6\<close> cannot be executed, \<open>check_call\<close> raises an \<open>OSError\<close>, which \<open>_ping_single\<close>
  does not catch: the one probe ends the whole batch with that error.
\<close>

theorem unhandled_probe_error_counterexample:
  "verify_batch \<lparr>use_mock = False\<rparr> no_random ping6_missing [0] [''::1''] = Inl OSError"
  by (simp add: verify_batch_def ping_single_def ping6_missing_def)

text \<open>
  C3, amended. Outside mock mode, when every probe ends by returning, with a non-zero exit
  status (\<open>CalledProcessError\<close>) or with a time-out (\<open>TimeoutExpired\<close>), \<open>verify_batch\<close> does
  not raise and returns the full list; scores are kept per address string, so an address
  gets score 0 when the probe of it that completed last failed or timed out, and when the
  addresses of the list are pairwise distinct every address whose probe failed or timed out
  gets score 0. When some probe raises any other exception, \<open>verify_batch\<close> raises an error
  for the whole batch.
\<close>

theorem failed_probe_scores_zero:
  assumes "\<not> use_mock self"
    and "mset order = mset [0 ..< length ip_list]"
  shows "((\<forall>j < length ip_list. \<forall>e. calls j (ip_list ! j) \<noteq> Raises e) \<longrightarrow>
            (\<exists>res. verify_batch self random calls order ip_list = Inr res
               \<and> length res = length ip_list
               \<and> (\<forall>i < length ip_list. \<forall>j.
                     last_completed ip_list order (ip_list ! i) = Some j
                     \<and> (calls j (ip_list ! j) = CalledProcessError
                          \<or> calls j (ip_list ! j) = TimeoutExpired)
                     \<longrightarrow> res ! i = 0)
               \<and> (distinct ip_list \<longrightarrow>
                     (\<forall>i < length ip_list.
                         calls i (ip_list ! i) = CalledProcessError
                       \<or> calls i (ip_list ! i) = TimeoutExpired
                       \<longrightarrow> res ! i = 0))))
       \<and> ((\<exists>j < length ip_list. \<exists>e. calls j (ip_list ! j) = Raises e) \<longrightarrow>
            (\<exists>e. verify_batch self random calls order ip_list = Inl e))"
proof (intro conjI impI)
  assume ok: "\<forall>j < length ip_list. \<forall>e. calls j (ip_list ! j) \<noteq> Raises e"
  from verify_batch_last_probe [where calls = calls and ip_list = ip_list, OF assms ok]
  obtain res where r: "verify_batch self random calls order ip_list = Inr res"
    "length res = length ip_list"
    and l: "\<forall>i < length ip_list. \<exists>j < length ip_list. ip_list ! j = ip_list ! i
              \<and> last_completed ip_list order (ip_list ! i) = Some j
              \<and> res ! i = score (calls j (ip_list ! j))"
    by blast
  have a: "res ! i = 0"
    if i: "i < length ip_list"
      and j: "last_completed ip_list order (ip_list ! i) = Some j"
      and f: "calls j (ip_list ! j) = CalledProcessError \<or> calls j (ip_list ! j) = TimeoutExpired"
    for i j
  proof -
    from l i obtain j' where j': "last_completed ip_list order (ip_list ! i) = Some j'"
      "res ! i = score (calls j' (ip_list ! j'))" by blast
    with j have "j' = j" by simp
    with j'(2) f show ?thesis by (auto simp: score_def)
  qed
  have b: "res ! i = 0"
    if d: "distinct ip_list" and i: "i < length ip_list"
      and f: "calls i (ip_list ! i) = CalledProcessError \<or> calls i (ip_list ! i) = TimeoutExpired"
    for i
  proof -
    from find_own_probe [OF d assms(2) i]
    have "last_completed ip_list order (ip_list ! i) = Some i"
      by (simp add: last_completed_def)
    from a [OF i this f] show ?thesis .
  qed
  from r a b
  show "\<exists>res. verify_batch self random calls order ip_list = Inr res
           \<and> length res = length ip_list
           \<and> (\<forall>i < length ip_list. \<forall>j.
                 last_completed ip_list order (ip_list ! i) = Some j
                 \<and> (calls j (ip_list ! j) = CalledProcessError
                      \<or> calls j (ip_list ! j) = TimeoutExpired)
                 \<longrightarrow> res ! i = 0)
           \<and> (distinct ip_list \<longrightarrow>
                 (\<forall>i < length ip_list.
                     calls i (ip_list ! i) = CalledProcessError
                   \<or> calls i (ip_list ! i) = TimeoutExpired
                   \<longrightarrow> res ! i = 0))"
    by blast
next
  assume "\<exists>j < length ip_list. \<exists>e. calls j (ip_list ! j) = Raises e"
  then obtain j e where j: "j < length ip_list" "calls j (ip_list ! j) = Raises e"
    by blast
  have "set order = {0 ..< length ip_list}"
    using assms(2) by (metis mset_eq_setD set_upt)
  with j have "j \<in> set order" by simp
  from collect_raises [where calls = calls and ip_list = ip_list, OF this j(2)]
  obtain e' where "collect (map (\<lambda>j. (ip_list ! j, ping_single (calls j) (ip_list ! j))) order)
      Map.empty = Inl e'" by blast
  then show "\<exists>e. verify_batch self random calls order ip_list = Inl e"
    using assms(1) by (simp add: verify_batch_def)
qed

theorem failed_probe_scores_zero_witness:
  "\<exists>res. verify_batch \<lparr>use_mock = False\<rparr> no_random only_loopback [1, 0] [''::2'', ''::1'']
            = Inr res
         \<and> length res = 2 \<and> res ! 0 = 0"
proof -
  let ?ips = "[''::2'', ''::1'']"
  have 1: "\<not> use_mock \<lparr>use_mock = False\<rparr>" by simp
  have 2: "mset [1, 0] = mset [0 ..< length ?ips]"
    by (simp add: upt_rec)
  have 3: "\<forall>j < length ?ips. \<forall>e. only_loopback j (?ips ! j) \<noteq> Raises e"
    by (simp add: only_loopback_def)
  have 4: "distinct ?ips" by simp
  have 5: "only_loopback 0 (?ips ! 0) = CalledProcessError
         \<or> only_loopback 0 (?ips ! 0) = TimeoutExpired"
    by (simp add: only_loopback_def)
  from failed_probe_scores_zero [where calls = only_loopback and ip_list = ?ips
      and random = no_random, OF 1 2] 3 4
  obtain res where r: "verify_batch \<lparr>use_mock = False\<rparr> no_random only_loopback [1, 0] ?ips = Inr res"
    "length res = 2"
    "\<forall>i < length ?ips.
         only_loopback i (?ips ! i) = CalledProcessError
       \<or> only_loopback i (?ips ! i) = TimeoutExpired
       \<longrightarrow> res ! i = 0"
    by auto
  from r(3) have "only_loopback 0 (?ips ! 0) = CalledProcessError
         \<or> only_loopback 0 (?ips ! 0) = TimeoutExpired \<longrightarrow> res ! 0 = 0"
    by (elim allE [of _ 0]) simp
  with 5 have "res ! 0 = 0" by blast
  with r(1,2) show ?thesis by blast
qed

section \<open>The bucketizer\<close>

lemma str_strip_clean:
  assumes "s \<noteq> []" and "\<not> isspace (hd s)" and "\<not> isspace (last s)"
  shows "str_strip s = s"
proof -
  have "dropWhile isspace s = s"
    using assms by (cases s) simp_all
  moreover have "dropWhile isspace (rev s) = rev s"
  proof -
    obtain a l where al: "rev s = a # l"
      using assms(1) by (cases "rev s") auto
    then have "a = last s" by (metis hd_rev list.sel(1))
    with assms(3) have "\<not> isspace a" by simp
    then show ?thesis unfolding al by simp
  qed
  ultimately show ?thesis by (simp add: str_strip_def)
qed

lemma str_strip_trailing:
  assumes "isspace c"
  shows "str_strip (s @ [c]) = str_strip s"
proof (cases "\<forall>x \<in> set s. isspace x")
  case True
  then have "\<forall>x \<in> set (s @ [c]). isspace x" using assms by simp
  then have a: "dropWhile isspace (s @ [c]) = []"
    unfolding dropWhile_eq_Nil_conv .
  have b: "dropWhile isspace s = []"
    unfolding dropWhile_eq_Nil_conv using True .
  show ?thesis by (simp only: str_strip_def a b)
next
  case False
  then have "dropWhile isspace (s @ [c]) = dropWhile isspace s @ [c]"
    by (auto simp: dropWhile_append1)
  then show ?thesis using assms by (simp add: str_strip_def)
qed

text \<open>
  A line with a leading blank is kept, and what reaches the bucket is not the line: the
  blank is gone.
\<close>

theorem stripped_line_counterexample:
  "distribute NUM_BUCKETS always_zero 0 ['' ::1'' @ [CHR 0x0A]] (replicate NUM_BUCKETS []) ! 0
     = ''::1'' @ [CHR 0x0A]
   \<and> ''::1'' @ [CHR 0x0A] \<noteq> '' ::1'' @ [CHR 0x0A]"
  by (simp add: bucket_write_def str_defs randint_def always_zero_def NUM_BUCKETS_def)

text \<open>
  C4, amended. For every input line whose text, once surrounding whitespace is stripped, is
  not empty and does not start with \<open>#\<close>, the bucketizer appends that stripped text followed by
  a newline to the bucket drawn for it, and changes no other bucket; a line that is empty or
  starts with \<open>#\<close> after stripping adds nothing. For a line with no whitespace around its text
  other than the line terminator, the appended text is the line's content unchanged.
\<close>

theorem bucketizer_appends_stripped:
  assumes "0 < n" and "length bucket_files = n"
  shows "(str_strip line \<noteq> [] \<and> \<not> startswith (str_strip line) ''#'' \<longrightarrow>
            (\<exists>i < n. distribute n random k (line # fin) bucket_files =
               distribute n random (k + 1) fin
                 (bucket_files[i := bucket_files ! i @ str_strip line @ [CHR 0x0A]])))
       \<and> (str_strip line = [] \<or> startswith (str_strip line) ''#'' \<longrightarrow>
            distribute n random k (line # fin) bucket_files = distribute n random k fin bucket_files)
       \<and> (body \<noteq> [] \<and> \<not> isspace (hd body) \<and> \<not> isspace (last body) \<longrightarrow>
            str_strip (body @ [CHR 0x0A]) = body)"
proof (intro conjI impI)
  assume keep: "str_strip line \<noteq> [] \<and> \<not> startswith (str_strip line) ''#''"
  let ?i = "randint 0 (n - 1) (random k)"
  have "?i < n" using assms(1) by (simp add: randint_def)
  moreover have "distribute n random k (line # fin) bucket_files =
      distribute n random (k + 1) fin
        (bucket_files[?i := bucket_files ! ?i @ str_strip line @ [CHR 0x0A]])"
    using keep by (simp add: bucket_write_def Let_def)
  ultimately show "\<exists>i < n. distribute n random k (line # fin) bucket_files =
      distribute n random (k + 1) fin
        (bucket_files[i := bucket_files ! i @ str_strip line @ [CHR 0x0A]])"
    by blast
next
  assume "str_strip line = [] \<or> startswith (str_strip line) ''#''"
  then show "distribute n random k (line # fin) bucket_files = distribute n random k fin bucket_files"
    by (auto simp: bucket_write_def Let_def)
next
  assume "body \<noteq> [] \<and> \<not> isspace (hd body) \<and> \<not> isspace (last body)"
  then show "str_strip (body @ [CHR 0x0A]) = body"
    by (simp add: str_strip_trailing str_strip_clean isspace_def)
qed

theorem bucketizer_appends_stripped_witness:
  "\<exists>i < (2::nat). distribute 2 always_zero 0 [''  ::1 '' @ [CHR 0x0A]] [[], []] =
       [[], []][i := [[], []] ! i @ ''::1'' @ [CHR 0x0A]]"
proof -
  let ?L = "''  ::1 '' @ [CHR 0x0A]"
  let ?B = "[[], []] :: string list"
  have 1: "(0::nat) < 2" by simp
  have 2: "length ?B = (2::nat)" by simp
  have 3: "str_strip ?L = ''::1''"
    by (simp add: str_defs)
  have 4: "\<not> startswith ''::1'' ''#''" by (simp add: startswith_def)
  have pre: "str_strip ?L \<noteq> [] \<and> \<not> startswith (str_strip ?L) ''#''"
    using 3 4 by simp
  from bucketizer_appends_stripped [OF 1 2, of ?L always_zero 0 "[]"] pre
  have "\<exists>i < (2::nat). distribute 2 always_zero 0 [?L] ?B =
      distribute 2 always_zero (0 + 1) [] (?B[i := ?B ! i @ str_strip ?L @ [CHR 0x0A]])"
    by blast
  then show ?thesis unfolding 3 distribute.simps(1) .
qed

section \<open>The reducer: chunks, shards and duplicates\<close>

lemma chunks_Nil [simp]: "chunks c [] = []"
  by (simp add: chunks.simps)

lemma chunks_step: "0 < c \<Longrightarrow> xs \<noteq> [] \<Longrightarrow> chunks c xs = take c xs # chunks c (drop c xs)"
  by (subst chunks.simps) simp

lemma concat_chunks: "0 < c \<Longrightarrow> concat (chunks c xs) = xs"
proof (induction c xs rule: chunks.induct)
  case (1 c xs)
  then show ?case by (cases "xs = []") (simp_all add: chunks_step)
qed

lemma chunk_sizes:
  "0 < c \<Longrightarrow> map length (chunks c xs) =
     replicate (length xs div c) c @ (if length xs mod c = 0 then [] else [length xs mod c])"
proof (induction c xs rule: chunks.induct)
  case (1 c xs)
  show ?case
  proof (cases "xs = []")
    case True
    then show ?thesis by simp
  next
    case False
    note ne = this
    show ?thesis
    proof (cases "c \<le> length xs")
      case True
      then have d: "length xs div c = Suc ((length xs - c) div c)"
        and m: "length xs mod c = (length xs - c) mod c"
        using \<open>0 < c\<close> by (simp_all add: le_div_geq le_mod_geq)
      from 1 ne have "map length (chunks c (drop c xs)) =
          replicate ((length xs - c) div c) c @
            (if (length xs - c) mod c = 0 then [] else [(length xs - c) mod c])"
        by simp
      then show ?thesis
        using True ne \<open>0 < c\<close> by (simp add: chunks_step d m)
    next
      case False
      then show ?thesis using ne \<open>0 < c\<close> by (simp add: chunks_step)
    qed
  qed
qed

lemma ceil_div:
  fixes n c :: nat
  assumes "0 < c"
  shows "(n + c - 1) div c = n div c + (if n mod c = 0 then 0 else 1)"
proof -
  define q r where "q = n div c" and "r = n mod c"
  have n: "n = c * q + r" and r: "r < c"
    using assms by (simp_all add: q_def r_def)
  show ?thesis
  proof (cases "r = 0")
    case True
    have "(n + c - 1) div c = q"
    proof (rule div_nat_eqI)
      show "c * q \<le> n + c - 1" using n True assms by simp
      show "n + c - 1 < c * Suc q" using n True assms by simp
    qed
    then show ?thesis using True by (simp add: q_def r_def)
  next
    case False
    have "(n + c - 1) div c = Suc q"
    proof (rule div_nat_eqI)
      show "c * Suc q \<le> n + c - 1" using n False by simp
      show "n + c - 1 < c * Suc (Suc q)" using n r False by simp
    qed
    then show ?thesis using False by (simp add: q_def r_def)
  qed
qed

lemma length_chunks: "0 < c \<Longrightarrow> length (chunks c xs) = (length xs + c - 1) div c"
proof -
  assume c: "0 < c"
  have "length (chunks c xs) = length (map length (chunks c xs))" by simp
  also have "\<dots> = length xs div c + (if length xs mod c = 0 then 0 else 1)"
    unfolding chunk_sizes [OF c] by simp
  also have "\<dots> = (length xs + c - 1) div c"
    by (rule ceil_div [OF c, symmetric])
  finally show ?thesis .
qed

lemma write_shards_chunks:
  assumes "0 < c"
  shows "write_shards c xs cur out =
     Some (out\<lparr>shards := shards out @
                   zip [shard_index out ..< shard_index out + length (chunks c (drop cur xs))]
                       (chunks c (drop cur xs)),
                shard_index := shard_index out + length (chunks c (drop cur xs)),
                total_processed_ips := total_processed_ips out + length (drop cur xs)\<rparr>)"
proof (induction "length xs - cur" arbitrary: cur out rule: less_induct)
  case less
  show ?case
  proof (cases "cur < length xs")
    case False
    then show ?thesis
      by (subst write_shards.simps) simp
  next
    case True
    let ?chunk = "take c (drop cur xs)"
    let ?out = "out\<lparr>shards := shards out @ [(shard_index out, ?chunk)],
                     shard_index := shard_index out + 1,
                     total_processed_ips := total_processed_ips out + length ?chunk\<rparr>"
    have ne: "drop cur xs \<noteq> []" using True by simp
    have step: "write_shards c xs cur out = write_shards c xs (cur + c) ?out"
      using True assms by (subst write_shards.simps) (simp add: Let_def)
    have "length xs - (cur + c) < length xs - cur"
      using True assms by simp
    note ih = less [OF this, of ?out]
    have ch: "chunks c (drop cur xs) = ?chunk # chunks c (drop (cur + c) xs)"
      using chunks_step [OF assms ne] by (simp add: add.commute)
    have len: "length (drop cur xs) = length ?chunk + length (drop (cur + c) xs)"
      using True by (simp add: min_def)
    have z: "zip [i ..< Suc (i + n)] (a # as) = (i, a) # zip [Suc i ..< Suc (i + n)] as"
      for i n :: nat and a :: "string list" and as
      by (simp add: upt_conv_Cons del: upt_Suc)
    have t: "min (length xs - cur) c + (length xs - (cur + c)) = length xs - cur"
      by (simp add: min_def)
    show ?thesis
      unfolding step ih ch
      by (simp add: z t add.assoc del: upt_Suc)
  qed
qed

lemma reduce_bucket_chunks:
  assumes "0 < c"
  shows "\<exists>out'. reduce_bucket c random raw_lines out = Some out'
           \<and> take (length (shards out)) (shards out') = shards out
           \<and> new_shards out out' = chunks c (bucket_ip_list random raw_lines)
           \<and> map fst (drop (length (shards out)) (shards out')) =
               [shard_index out ..< shard_index out + length (new_shards out out')]
           \<and> shard_index out' = shard_index out + length (new_shards out out')
           \<and> total_processed_ips out' =
               total_processed_ips out + length (bucket_ip_list random raw_lines)"
  unfolding reduce_bucket_def write_shards_chunks [OF assms] new_shards_def
  by simp

lemma distinct_unique_ips: "distinct seen \<Longrightarrow> distinct (unique_ips raw_lines seen)"
  by (induction raw_lines arbitrary: seen) (auto split: option.splits)

lemma set_unique_ips:
  "set (unique_ips raw_lines seen) =
     set seen \<union> {e. e \<noteq> [] \<and> (\<exists>line \<in> set raw_lines. expand_ipv6 (str_strip line) = Some e)}"
  by (induction raw_lines arbitrary: seen) (auto split: option.splits)

lemma mset_shuffle: "i \<le> length x - 1 \<Longrightarrow> mset (shuffle random k i x) = mset x"
proof (induction i arbitrary: k x)
  case 0
  then show ?case by simp
next
  case (Suc i)
  let ?j = "random k mod (Suc i + 1)"
  have i: "Suc i < length x" using Suc.prems by simp
  have "?j < Suc i + 1" by (rule mod_less_divisor) simp
  with i have j: "?j < length x" by linarith
  have sw: "mset (x[Suc i := x ! ?j, ?j := x ! Suc i]) = mset x"
    by (rule mset_swap [OF j i])
  have "i \<le> length (x[Suc i := x ! ?j, ?j := x ! Suc i]) - 1" using i by simp
  from Suc.IH [OF this] sw show ?case by (simp add: Let_def)
qed

lemma bucket_ip_list_distinct: "distinct (bucket_ip_list random raw_lines)"
proof -
  have "mset (bucket_ip_list random raw_lines) = mset (unique_ips raw_lines [])"
    by (simp add: bucket_ip_list_def Let_def mset_shuffle)
  moreover have "distinct (unique_ips raw_lines [])"
    by (simp add: distinct_unique_ips)
  ultimately show ?thesis by (metis mset_eq_imp_distinct_iff)
qed

lemma bucket_ip_list_set:
  "set (bucket_ip_list random raw_lines) =
     {e. e \<noteq> [] \<and> (\<exists>line \<in> set raw_lines. expand_ipv6 (str_strip line) = Some e)}"
proof -
  have "mset (bucket_ip_list random raw_lines) = mset (unique_ips raw_lines [])"
    by (simp add: bucket_ip_list_def Let_def mset_shuffle)
  then have "set (bucket_ip_list random raw_lines) = set (unique_ips raw_lines [])"
    by (rule mset_eq_setD)
  then show ?thesis by (simp add: set_unique_ips)
qed

lemma demo_bucket:
  "unique_ips [''::1'' @ [CHR 0x0A], ''0:0::1'' @ [CHR 0x0A], ''bad'' @ [CHR 0x0A],
               ''::2'' @ [CHR 0x0A], ''::3'' @ [CHR 0x0A]] [] =
     [''0000:0000:0000:0000:0000:0000:0000:0003'', ''0000:0000:0000:0000:0000:0000:0000:0002'',
      ''0000:0000:0000:0000:0000:0000:0000:0001'']"
  by (simp add: expand_ipv6_def str_defs ip_defs)

lemma length_bucket_ip_list:
  "length (bucket_ip_list random raw_lines) = length (unique_ips raw_lines [])"
proof -
  have "mset (bucket_ip_list random raw_lines) = mset (unique_ips raw_lines [])"
    by (simp add: bucket_ip_list_def Let_def mset_shuffle)
  then show ?thesis by (rule mset_eq_length)
qed

text \<open>
  C6. For a bucket whose deduplicated, shuffled sequence has \<open>n\<close> elements and chunk size
  \<open>c > 0\<close>, the reducer writes \<open>ceil(n / c)\<close> new shards after the ones already there, numbered
  from the running shard index: \<open>n div c\<close> shards of exactly \<open>c\<close> rows and, when \<open>c\<close> does not
  divide \<open>n\<close>, one last shard with the \<open>n mod c\<close> remaining rows (all \<open>n\<close> rows when \<open>n < c\<close>).
  The shards are the consecutive pieces of the sequence, nothing merged, nothing dropped, so
  the rows written for the bucket are \<open>n\<close>.
\<close>

theorem shard_sizes:
  assumes "0 < c" and "n = length (bucket_ip_list random raw_lines)"
  shows "\<exists>out'. reduce_bucket c random raw_lines out = Some out'
           \<and> take (length (shards out)) (shards out') = shards out
           \<and> length (new_shards out out') = (n + c - 1) div c
           \<and> map length (new_shards out out') =
               replicate (n div c) c @ (if n mod c = 0 then [] else [n mod c])
           \<and> concat (new_shards out out') = bucket_ip_list random raw_lines
           \<and> sum_list (map length (new_shards out out')) = n
           \<and> total_processed_ips out' = total_processed_ips out + n
           \<and> shard_index out' = shard_index out + (n + c - 1) div c
           \<and> map fst (drop (length (shards out)) (shards out')) =
               [shard_index out ..< shard_index out + (n + c - 1) div c]"
proof -
  from reduce_bucket_chunks [OF assms(1), of random raw_lines out]
  obtain out' where o: "reduce_bucket c random raw_lines out = Some out'"
    "take (length (shards out)) (shards out') = shards out"
    "new_shards out out' = chunks c (bucket_ip_list random raw_lines)"
    "map fst (drop (length (shards out)) (shards out')) =
       [shard_index out ..< shard_index out + length (new_shards out out')]"
    "shard_index out' = shard_index out + length (new_shards out out')"
    "total_processed_ips out' = total_processed_ips out + length (bucket_ip_list random raw_lines)"
    by blast
  have l: "length (new_shards out out') = (n + c - 1) div c"
    unfolding o(3) assms(2) by (rule length_chunks [OF assms(1)])
  have s: "map length (new_shards out out') =
      replicate (n div c) c @ (if n mod c = 0 then [] else [n mod c])"
    unfolding o(3) assms(2) by (rule chunk_sizes [OF assms(1)])
  have cc: "concat (new_shards out out') = bucket_ip_list random raw_lines"
    unfolding o(3) by (rule concat_chunks [OF assms(1)])
  have "sum_list (map length (new_shards out out')) = length (concat (new_shards out out'))"
    by (simp add: length_concat)
  then have t: "sum_list (map length (new_shards out out')) = n"
    unfolding cc assms(2) .
  show ?thesis
    using o(1,2,4,5,6) l s cc t assms(2) by simp
qed

theorem shard_sizes_witness:
  "\<exists>out'. reduce_bucket 2 always_zero
             [''::1'' @ [CHR 0x0A], ''0:0::1'' @ [CHR 0x0A], ''bad'' @ [CHR 0x0A],
              ''::2'' @ [CHR 0x0A], ''::3'' @ [CHR 0x0A]] empty_out = Some out'
         \<and> map length (new_shards empty_out out') = [2, 1]
         \<and> total_processed_ips out' = 3 \<and> shard_index out' = 2"
proof -
  let ?raw = "[''::1'' @ [CHR 0x0A], ''0:0::1'' @ [CHR 0x0A], ''bad'' @ [CHR 0x0A],
               ''::2'' @ [CHR 0x0A], ''::3'' @ [CHR 0x0A]]"
  have n: "(3::nat) = length (bucket_ip_list always_zero ?raw)"
    unfolding length_bucket_ip_list demo_bucket by simp
  have c: "(0::nat) < 2" by simp
  from shard_sizes [OF c n, of empty_out]
  show ?thesis by (auto simp: empty_out_def)
qed

text \<open>
  C7. The rows written for one bucket, over all its shards, are pairwise distinct: they are
  the members of the deduplicating set, each written once. The set holds exactly the
  non-empty exploded forms of the lines that parse.
\<close>

theorem bucket_rows_distinct:
  assumes "0 < c"
  shows "\<exists>out'. reduce_bucket c random raw_lines out = Some out'
           \<and> distinct (concat (new_shards out out'))
           \<and> set (concat (new_shards out out')) =
               {e. e \<noteq> [] \<and> (\<exists>line \<in> set raw_lines. expand_ipv6 (str_strip line) = Some e)}"
proof -
  from reduce_bucket_chunks [OF assms, of random raw_lines out]
  obtain out' where o: "reduce_bucket c random raw_lines out = Some out'"
    "new_shards out out' = chunks c (bucket_ip_list random raw_lines)"
    by blast
  have cc: "concat (new_shards out out') = bucket_ip_list random raw_lines"
    unfolding o(2) by (rule concat_chunks [OF assms])
  have "distinct (concat (new_shards out out'))"
    unfolding cc by (rule bucket_ip_list_distinct)
  moreover have "set (concat (new_shards out out')) =
      {e. e \<noteq> [] \<and> (\<exists>line \<in> set raw_lines. expand_ipv6 (str_strip line) = Some e)}"
    unfolding cc by (rule bucket_ip_list_set)
  ultimately show ?thesis using o(1) by blast
qed

theorem bucket_rows_distinct_witness:
  "\<exists>out'. reduce_bucket 2 always_zero
             [''::1'' @ [CHR 0x0A], ''0:0::1'' @ [CHR 0x0A], ''bad'' @ [CHR 0x0A],
              ''::2'' @ [CHR 0x0A], ''::3'' @ [CHR 0x0A]] empty_out = Some out'
         \<and> distinct (concat (new_shards empty_out out'))"
proof -
  have c: "(0::nat) < 2" by simp
  from bucket_rows_distinct [OF c, of always_zero _ empty_out]
  show ?thesis by blast
qed

section \<open>Hexadecimal digits\<close>

lemma shift_or:
  assumes "h < 2 ^ n"
  shows "push_bit n (a::nat) OR h = a * 2 ^ n + h"
proof -
  have "push_bit n a + h = push_bit n a OR h"
  proof (rule disjunctive_add)
    fix m
    show "\<not> bit (push_bit n a) m \<or> \<not> bit h m"
    proof (cases "m < n")
      case True
      then show ?thesis by (simp add: bit_push_bit_iff)
    next
      case False
      then have "(2::nat) ^ n \<le> 2 ^ m" by simp
      with assms have "h < 2 ^ m" by linarith
      then have "h div 2 ^ m = 0" by simp
      then show ?thesis by (simp add: bit_iff_odd)
    qed
  qed
  then show ?thesis by (simp add: push_bit_eq_mult)
qed

lemma below_16: "d < 16 \<Longrightarrow> d \<in> set [0, 1, 2, 3, 4, 5, 6, 7, 8, 9, 10, 11, 12, 13, 14, 15 :: nat]"
  by (simp add: numeral_eq_Suc less_Suc_eq)

lemma hex_value_hex_digit: "d < 16 \<Longrightarrow> hex_value (hex_digit d) = Some d"
  by (drule below_16) (auto simp: hex_value_def hex_digit_def)

lemma hex_digit_in_HEX_DIGITS: "d < 16 \<Longrightarrow> hex_digit d \<in> set HEX_DIGITS"
  by (drule below_16) (auto simp: HEX_DIGITS_def hex_digit_def)

lemma hex_digit_0: "hex_digit 0 = CHR ''0''"
  by (simp add: hex_digit_def)

lemma hex_value_Some: "hex_value c = Some d \<Longrightarrow> d < 16"
  by (auto simp: hex_value_def Let_def split: if_splits)

lemma format_x_small: "n < 16 \<Longrightarrow> format_x n = [hex_digit n]"
  by (subst format_x.simps) simp

lemma format_x_large: "\<not> n < 16 \<Longrightarrow> format_x n = format_x (n div 16) @ [hex_digit (n mod 16)]"
  by (subst format_x.simps) simp

lemma format_x_nonempty: "format_x n \<noteq> []"
  by (cases "n < 16") (simp_all add: format_x_small format_x_large)

lemma format_x_hex: "list_all (\<lambda>c. c \<in> set HEX_DIGITS) (format_x n)"
proof (induction n rule: format_x.induct)
  case (1 n)
  show ?case
  proof (cases "n < 16")
    case True
    then show ?thesis by (simp add: format_x_small hex_digit_in_HEX_DIGITS)
  next
    case False
    with 1 show ?thesis by (simp add: format_x_large hex_digit_in_HEX_DIGITS)
  qed
qed

lemma length_format_x: "0 < k \<Longrightarrow> n < 16 ^ k \<Longrightarrow> length (format_x n) \<le> k"
proof (induction n arbitrary: k rule: format_x.induct)
  case (1 n)
  show ?case
  proof (cases "n < 16")
    case True
    then show ?thesis using 1(2) by (simp add: format_x_small)
  next
    case False
    then obtain j where k: "k = Suc j" using 1(2) by (cases k) auto
    have "0 < j" using False 1(3) k by (cases j) auto
    moreover have "n div 16 < 16 ^ j"
      using 1(3) k by (simp add: less_mult_imp_div_less mult.commute)
    ultimately have "length (format_x (n div 16)) \<le> j"
      using 1(1) False by blast
    then show ?thesis using False k by (simp add: format_x_large)
  qed
qed

lemma hex_acc_append:
  "hex_acc a (xs @ ys) = (case hex_acc a xs of None \<Rightarrow> None | Some b \<Rightarrow> hex_acc b ys)"
  by (induction xs arbitrary: a) (auto split: option.splits)

lemma hex_acc_format_x: "hex_acc a (format_x n) = Some (a * 16 ^ length (format_x n) + n)"
proof (induction n arbitrary: a rule: format_x.induct)
  case (1 n)
  show ?case
  proof (cases "n < 16")
    case True
    then show ?thesis by (simp add: format_x_small hex_value_hex_digit)
  next
    case False
    with 1 have "hex_acc a (format_x (n div 16)) =
        Some (a * 16 ^ length (format_x (n div 16)) + n div 16)" by blast
    then show ?thesis
      using False by (simp add: format_x_large hex_acc_append hex_value_hex_digit algebra_simps)
  qed
qed

lemma hex_acc_zeros: "hex_acc 0 (replicate k CHR ''0'' @ s) = hex_acc 0 s"
  by (induction k) (simp_all add: hex_value_def)

lemma hex_acc_bound: "hex_acc a p = Some v \<Longrightarrow> v < (a + 1) * 16 ^ length p"
proof (induction p arbitrary: a)
  case Nil
  then show ?case by simp
next
  case (Cons c cs)
  then obtain d where d: "hex_value c = Some d" and r: "hex_acc (16 * a + d) cs = Some v"
    by (auto split: option.splits)
  from Cons.IH [OF r] have "v < (16 * a + d + 1) * 16 ^ length cs" by simp
  also have "\<dots> \<le> (16 * (a + 1)) * 16 ^ length cs"
    by (rule mult_le_mono1) (use hex_value_Some [OF d] in simp)
  also have "\<dots> = (a + 1) * 16 ^ length (c # cs)" by (simp add: algebra_simps)
  finally show ?case .
qed

section \<open>Hextets as strings\<close>



lemma length_format_04x: "n < 65536 \<Longrightarrow> length (format_04x n) = 4"
proof -
  assume "n < 65536"
  then have "n < 16 ^ 4" by simp
  then have "length (format_x n) \<le> 4" by (intro length_format_x) simp_all
  then show ?thesis by (simp add: format_04x_def zero_pad_def)
qed

lemma list_all_replicate: "P c \<Longrightarrow> list_all P (replicate k c)"
  by (induction k) simp_all

lemma zero_in_HEX_DIGITS: "CHR ''0'' \<in> set HEX_DIGITS"
  by (simp add: HEX_DIGITS_def)

lemma format_04x_hex: "list_all (\<lambda>c. c \<in> set HEX_DIGITS) (format_04x n)"
  by (simp add: format_04x_def zero_pad_def format_x_hex list_all_replicate zero_in_HEX_DIGITS)

lemma int_base16_format_04x: "int_base16 (format_04x n) = Some n"
  using format_x_nonempty [of n]
  by (simp add: int_base16_def format_04x_def zero_pad_def hex_acc_zeros hex_acc_format_x)

lemma parse_hextet_format_04x: "n < 65536 \<Longrightarrow> parse_hextet (format_04x n) = Some n"
  by (simp add: parse_hextet_def format_04x_hex length_format_04x int_base16_format_04x)

lemma parse_hextet_Some:
  assumes "parse_hextet p = Some h"
  shows "p \<noteq> []" and "list_all (\<lambda>c. c \<in> set HEX_DIGITS) p" and "h < 65536"
proof -
  show hex: "list_all (\<lambda>c. c \<in> set HEX_DIGITS) p"
    using assms unfolding parse_hextet_def by (metis option.distinct(1))
  have len: "length p \<le> 4"
    using assms hex unfolding parse_hextet_def by (simp split: if_splits)
  have v: "int_base16 p = Some h"
    using assms hex len unfolding parse_hextet_def by simp
  show ne: "p \<noteq> []"
    using v unfolding int_base16_def by (metis option.distinct(1))
  have "hex_acc 0 p = Some h"
    using v ne unfolding int_base16_def by simp
  from hex_acc_bound [OF this] have "h < 16 ^ length p" by simp
  also have "\<dots> \<le> (16::nat) ^ 4" using len by (intro power_increasing) simp_all
  finally show "h < 65536" by simp
qed

lemma hex_char_no_punct:
  assumes "c \<in> set HEX_DIGITS"
  shows "c \<noteq> CHR '':''" and "c \<noteq> CHR ''.''" and "c \<noteq> CHR ''/''" and "c \<noteq> CHR ''%''"
    and "\<not> isspace c"
  using assms by (auto simp: HEX_DIGITS_def isspace_def)

lemma hex_no_punct:
  assumes "list_all (\<lambda>c. c \<in> set HEX_DIGITS) p"
  shows "CHR '':'' \<notin> set p" and "CHR ''.'' \<notin> set p" and "CHR ''/'' \<notin> set p"
    and "CHR ''%'' \<notin> set p" and "\<forall>c \<in> set p. \<not> isspace c"
proof -
  have h: "c \<in> set HEX_DIGITS" if "c \<in> set p" for c
    using assms that by (simp add: list_all_iff)
  show "CHR '':'' \<notin> set p" using h hex_char_no_punct(1) by blast
  show "CHR ''.'' \<notin> set p" using h hex_char_no_punct(2) by blast
  show "CHR ''/'' \<notin> set p" using h hex_char_no_punct(3) by blast
  show "CHR ''%'' \<notin> set p" using h hex_char_no_punct(4) by blast
  show "\<forall>c \<in> set p. \<not> isspace c" using h hex_char_no_punct(5) by blast
qed

section \<open>Splitting and joining\<close>


lemma str_split_no_sep: "sep \<notin> set p \<Longrightarrow> str_split sep p = [p]"
  by (induction p) auto

lemma str_split_append:
  "sep \<notin> set p \<Longrightarrow> str_split sep (p @ sep # rest) = p # str_split sep rest"
  by (induction p) auto

lemma str_split_join:
  assumes "ps \<noteq> []" and "\<forall>p \<in> set ps. sep \<notin> set p"
  shows "str_split sep (str_join [sep] ps) = ps"
  using assms
proof (induction "[sep]" ps rule: str_join.induct)
  case 1
  then show ?case by simp
next
  case (2 p)
  then show ?case by (simp add: str_split_no_sep)
next
  case (3 p q ps)
  then show ?case by (simp add: str_split_append)
qed

lemma set_str_join: "set (str_join sep ps) \<subseteq> set sep \<union> \<Union> (set ` set ps)"
  by (induction sep ps rule: str_join.induct) auto


section \<open>Hextet lists and their value\<close>

lemma shift_hextets_value:
  assumes "list_all2 (\<lambda>p h. parse_hextet p = Some h) ps hs"
  shows "shift_hextets a ps = Some (foldl (\<lambda>a h. a * 65536 + h) a hs)"
  using assms
proof (induction ps hs arbitrary: a rule: list_all2_induct)
  case Nil
  then show ?case by simp
next
  case (Cons p ps h hs)
  have "h < 2 ^ 16" using parse_hextet_Some(3) [OF Cons.hyps(1)] by simp
  then have "push_bit 16 a OR h = a * 65536 + h"
    using shift_or [of h 16 a] by simp
  with Cons show ?case by simp
qed




lemma foldl_hextets_bound:
  fixes a :: nat
  assumes "\<forall>h \<in> set hs. h < 65536"
  shows "foldl (\<lambda>a h. a * 65536 + h) a hs < (a + 1) * 65536 ^ length hs"
  using assms
proof (induction hs arbitrary: a)
  case Nil
  then show ?case by simp
next
  case (Cons h hs)
  then have "foldl (\<lambda>a h. a * 65536 + h) (a * 65536 + h) hs
      < (a * 65536 + h + 1) * 65536 ^ length hs" by simp
  also have "\<dots> \<le> ((a + 1) * 65536) * 65536 ^ length hs"
    by (rule mult_le_mono1) (use Cons.prems in simp)
  also have "\<dots> = (a + 1) * 65536 ^ length (h # hs)" by (simp add: algebra_simps)
  finally show ?case by simp
qed

section \<open>Looking for the empty part\<close>

lemma find_skip_none:
  "\<forall>i \<in> set idx. parts ! i \<noteq> [] \<Longrightarrow> find_skip parts idx skip = Some skip"
  by (induction idx arbitrary: skip) simp_all



lemma find_skip_others:
  "find_skip parts idx skip = Some (Some k) \<Longrightarrow> i \<in> set idx \<Longrightarrow> i \<noteq> k \<Longrightarrow> parts ! i \<noteq> []"
proof (induction idx arbitrary: skip)
  case Nil
  then show ?case by simp
next
  case (Cons j idx)
  show ?case
  proof (cases "parts ! j = []")
    case True
    with Cons.prems(1) have s: "skip = None" and r: "find_skip parts idx (Some j) = Some (Some k)"
      by (auto split: if_splits)
    have "\<forall>i \<in> set idx. parts ! i \<noteq> []"
    proof (rule ccontr)
      assume "\<not> (\<forall>i \<in> set idx. parts ! i \<noteq> [])"
      then obtain i where "i \<in> set idx" "parts ! i = []" by blast
      then have "find_skip parts idx (Some j) = None"
        by (induction idx) auto
      with r show False by simp
    qed
    moreover from this r have "k = j" by (simp add: find_skip_none)
    ultimately show ?thesis using Cons.prems(2,3) by auto
  next
    case False
    with Cons.prems(1) have "find_skip parts idx skip = Some (Some k)" by simp
    from Cons.IH [OF this] Cons.prems(2,3) False show ?thesis by auto
  qed
qed

lemma find_skip_None_all:
  "find_skip parts idx None = Some None \<Longrightarrow> \<forall>i \<in> set idx. parts ! i \<noteq> []"
proof (induction idx)
  case Nil
  then show ?case by simp
next
  case (Cons j idx)
  show ?case
  proof (cases "parts ! j = []")
    case True
    with Cons.prems have "find_skip parts idx (Some j) = Some None" by simp
    then have False by (induction idx) (auto split: if_splits)
    then show ?thesis ..
  next
    case False
    with Cons show ?thesis by simp
  qed
qed

section \<open>Parsing a list of hextet strings\<close>

lemma ip_int_from_string_parts:
  assumes "s \<noteq> []" and "str_split CHR '':'' s = parts" and "3 \<le> length parts"
    and "CHR ''.'' \<notin> set (last parts)" and "length parts \<le> 9"
  shows "ip_int_from_string s =
     (case find_skip parts [1 ..< length parts - 1] None of
        None \<Rightarrow> None
      | Some skip \<Rightarrow>
          (case hi_lo_skipped parts skip of
             None \<Rightarrow> None
           | Some (parts_hi, parts_lo, parts_skipped) \<Rightarrow>
               (case shift_hextets 0 (take parts_hi parts) of
                  None \<Rightarrow> None
                | Some ip_int \<Rightarrow>
                    shift_hextets (push_bit (16 * parts_skipped) ip_int)
                      (drop (length parts - parts_lo) parts))))"
  using assms by (simp add: ip_int_from_string_def v4_suffix_def Let_def)

lemma str_join_nonempty: "2 \<le> length ps \<Longrightarrow> str_join [sep] ps \<noteq> []"
proof -
  assume "2 \<le> length ps"
  then obtain p q rest where "ps = p # q # rest"
    by (cases ps; cases "tl ps") auto
  then show ?thesis by simp
qed

lemma hextet_parts:
  assumes "list_all2 (\<lambda>p h. parse_hextet p = Some h) ps hs"
  shows "\<forall>p \<in> set ps. p \<noteq> [] \<and> CHR '':'' \<notin> set p \<and> CHR ''.'' \<notin> set p
           \<and> CHR ''/'' \<notin> set p \<and> CHR ''%'' \<notin> set p"
    and "length hs = length ps" and "\<forall>h \<in> set hs. h < 65536"
proof -
  show "\<forall>p \<in> set ps. p \<noteq> [] \<and> CHR '':'' \<notin> set p \<and> CHR ''.'' \<notin> set p
           \<and> CHR ''/'' \<notin> set p \<and> CHR ''%'' \<notin> set p"
  proof
    fix p assume "p \<in> set ps"
    then obtain h where "parse_hextet p = Some h"
      using assms by (auto simp: list_all2_conv_all_nth in_set_conv_nth)
    from parse_hextet_Some(1,2) [OF this] hex_no_punct [of p]
    show "p \<noteq> [] \<and> CHR '':'' \<notin> set p \<and> CHR ''.'' \<notin> set p
           \<and> CHR ''/'' \<notin> set p \<and> CHR ''%'' \<notin> set p" by blast
  qed
  show "length hs = length ps" using assms by (simp add: list_all2_lengthD)
  show "\<forall>h \<in> set hs. h < 65536"
  proof
    fix h assume "h \<in> set hs"
    then obtain p where "parse_hextet p = Some h"
      using assms by (auto simp: list_all2_conv_all_nth in_set_conv_nth)
    from parse_hextet_Some(3) [OF this] show "h < 65536" .
  qed
qed

lemma parse_full:
  assumes "list_all2 (\<lambda>p h. parse_hextet p = Some h) ps hs" and "length ps = 8"
  shows "ip_int_from_string (str_join '':'' ps) = Some (int_of_hextets hs)"
proof -
  note parts = hextet_parts [OF assms(1)]
  have ne: "ps \<noteq> []" using assms(2) by auto
  have sp: "str_split CHR '':'' (str_join '':'' ps) = ps"
    using parts(1) ne by (intro str_split_join) auto
  have s: "str_join '':'' ps \<noteq> []"
    using assms(2) by (intro str_join_nonempty) simp
  have nth: "\<forall>i < 8. ps ! i \<noteq> []"
    using parts(1) assms(2) by (auto simp: all_set_conv_all_nth)
  have last: "last ps \<noteq> []" "CHR ''.'' \<notin> set (last ps)" and hd: "hd ps \<noteq> []"
    using parts(1) ne by (auto simp: last_in_set hd_in_set)
  have fs: "find_skip ps [1 ..< length ps - 1] None = Some None"
    using nth assms(2) by (intro find_skip_none) auto
  have hl: "hi_lo_skipped ps None = Some (8, 0, 0)"
    using assms(2) last hd by (simp add: hi_lo_skipped_def)
  have sh: "shift_hextets 0 ps = Some (int_of_hextets hs)"
    unfolding int_of_hextets_def by (rule shift_hextets_value [OF assms(1)])
  have "ip_int_from_string (str_join '':'' ps) =
      (case shift_hextets 0 (take 8 ps) of
         None \<Rightarrow> None
       | Some ip_int \<Rightarrow> shift_hextets (push_bit (16 * 0) ip_int) (drop (length ps - 0) ps))"
    using ip_int_from_string_parts [OF s sp _ last(2)] assms(2) fs hl by simp
  then show ?thesis using assms(2) sh by simp
qed


section \<open>Compression of the longest run of zeros\<close>







lemma hextets_format_04x:
  "\<forall>h \<in> set hs. h < 65536 \<Longrightarrow> list_all2 (\<lambda>p h. parse_hextet p = Some h) (map format_04x hs) hs"
  by (simp add: list_all2_conv_all_nth parse_hextet_format_04x)


section \<open>Fixed-width hexadecimal\<close>

lemma length_hexw: "length (hexw k n) = k"
  by (induction k arbitrary: n) simp_all

lemma hexw_zero: "hexw k 0 = replicate k CHR ''0''"
  by (induction k) (simp_all add: hex_digit_0 replicate_append_same)

lemma zero_pad_format_x: "n < 16 ^ k \<Longrightarrow> 0 < k \<Longrightarrow> zero_pad k (format_x n) = hexw k n"
proof (induction k arbitrary: n)
  case 0
  then show ?case by simp
next
  case (Suc k)
  show ?case
  proof (cases "n < 16")
    case True
    then show ?thesis
      by (simp add: format_x_small zero_pad_def hexw_zero)
  next
    case False
    have k: "0 < k" using False Suc.prems(1) by (cases k) auto
    have d: "n div 16 < 16 ^ k"
      using Suc.prems(1) by (simp add: less_mult_imp_div_less mult.commute)
    have l: "length (format_x (n div 16)) \<le> k"
      using k d by (rule length_format_x)
    have "zero_pad (Suc k) (format_x n) = zero_pad k (format_x (n div 16)) @ [hex_digit (n mod 16)]"
      using False l by (simp add: format_x_large zero_pad_def Suc_diff_le)
    also have "\<dots> = hexw k (n div 16) @ [hex_digit (n mod 16)]"
      by (simp only: Suc.IH [OF d k])
    finally show ?thesis by simp
  qed
qed

lemma hexw_add: "hexw (a + b) n = hexw a (n div 16 ^ b) @ hexw b n"
proof (induction b arbitrary: n)
  case 0
  then show ?case by simp
next
  case (Suc b)
  have "n div 16 div 16 ^ b = n div 16 ^ Suc b"
    by (simp add: div_mult2_eq)
  with Suc [of "n div 16"] show ?case by simp
qed

lemma hexw_low: "hexw k (m * 16 ^ k + h) = hexw k h"
proof (induction k arbitrary: m h)
  case 0
  then show ?case by simp
next
  case (Suc k)
  have e: "m * 16 ^ Suc k + h = 16 * (m * 16 ^ k) + h" by simp
  have "(m * 16 ^ Suc k + h) div 16 = m * 16 ^ k + h div 16"
    unfolding e by simp
  moreover have "(m * 16 ^ Suc k + h) mod 16 = h mod 16"
    unfolding e by simp
  ultimately show ?case using Suc [of m "h div 16"] by (simp del: power_Suc)
qed

lemma hexw_hextets:
  assumes "\<forall>h \<in> set hs. h < 65536"
  shows "hexw (4 * length hs) (foldl (\<lambda>a h. a * 65536 + h) 0 hs) = concat (map (hexw 4) hs)"
  using assms
proof (induction hs rule: rev_induct)
  case Nil
  then show ?case by simp
next
  case (snoc h hs)
  let ?v = "foldl (\<lambda>a h. a * 65536 + h) 0 hs"
  have h: "h < 65536" using snoc.prems by simp
  have p: "(65536::nat) = 16 ^ 4" by simp
  have "hexw (4 * length hs + 4) (?v * 65536 + h)
      = hexw (4 * length hs) ((?v * 65536 + h) div 16 ^ 4) @ hexw 4 (?v * 65536 + h)"
    by (rule hexw_add)
  also have "(?v * 65536 + h) div 16 ^ 4 = ?v" using h by simp
  also have "hexw 4 (?v * 65536 + h) = hexw 4 h"
    unfolding p by (rule hexw_low)
  finally have "hexw (4 * length hs + 4) (?v * 65536 + h)
      = hexw (4 * length hs) ?v @ hexw 4 h" .
  moreover have "hexw (4 * length (hs @ [h])) (foldl (\<lambda>a h. a * 65536 + h) 0 (hs @ [h]))
      = hexw (4 * length hs + 4) (?v * 65536 + h)"
    by (simp add: add.commute)
  moreover have "hexw (4 * length hs) ?v = concat (map (hexw 4) hs)"
    using snoc by simp
  ultimately show ?case by simp
qed

lemma format_04x_hexw: "h < 65536 \<Longrightarrow> format_04x h = hexw 4 h"
  unfolding format_04x_def by (rule zero_pad_format_x) simp_all

lemma format_032x_hexw: "v < 2 ^ 128 \<Longrightarrow> format_032x v = hexw 32 v"
  unfolding format_032x_def by (rule zero_pad_format_x) simp_all

lemma int_of_hextets_bound:
  assumes "length hs = 8" and "\<forall>h \<in> set hs. h < 65536"
  shows "int_of_hextets hs < 2 ^ 128"
proof -
  have "int_of_hextets hs < (0 + 1) * 65536 ^ length hs"
    unfolding int_of_hextets_def by (rule foldl_hextets_bound [OF assms(2)])
  then show ?thesis using assms(1) by simp
qed

lemma eight_elements:
  assumes "length xs = 8"
  obtains a b c d e f g h where "xs = [a, b, c, d, e, f, g, h]"
proof -
  from assms obtain a b c d e f g h where "xs = [a, b, c, d, e, f, g, h]"
    by (auto simp: length_Suc_conv numeral_eq_Suc)
  then show ?thesis ..
qed

lemma hex_slices_concat:
  assumes "length xs = 8" and "\<forall>x \<in> set xs. length x = 4"
  shows "hex_slices (concat xs) = xs"
proof -
  from assms(1) obtain a b c d e f g h where xs: "xs = [a, b, c, d, e, f, g, h]"
    by (rule eight_elements)
  with assms(2) show ?thesis by (simp add: hex_slices_def)
qed

lemma hex_slices_value:
  assumes "length hs = 8" and "\<forall>h \<in> set hs. h < 65536"
  shows "hex_slices (format_032x (int_of_hextets hs)) = map format_04x hs"
proof -
  have "format_032x (int_of_hextets hs) = hexw 32 (int_of_hextets hs)"
    by (rule format_032x_hexw [OF int_of_hextets_bound [OF assms]])
  also have "\<dots> = concat (map (hexw 4) hs)"
    using hexw_hextets [OF assms(2)] assms(1) by (simp add: int_of_hextets_def)
  also have "map (hexw 4) hs = map format_04x hs"
    using assms(2) by (simp add: format_04x_hexw)
  finally have "format_032x (int_of_hextets hs) = concat (map format_04x hs)" .
  moreover have "hex_slices (concat (map format_04x hs)) = map format_04x hs"
    using assms by (intro hex_slices_concat) (auto simp: length_format_04x)
  ultimately show ?thesis by simp
qed

lemma those_map_Some: "\<forall>x \<in> set xs. f x = Some (g x) \<Longrightarrow> those (map f xs) = Some (map g xs)"
  by (induction xs) simp_all

section \<open>Printing an address value\<close>

lemma string_from_ip_int_value:
  assumes "length hs = 8" and "\<forall>h \<in> set hs. h < 65536"
  shows "string_from_ip_int (int_of_hextets hs)
           = Some (str_join '':'' (compress_hextets (map format_x hs)))"
proof -
  have "\<not> int_of_hextets hs > ALL_ONES"
    using int_of_hextets_bound [OF assms] by (simp add: ALL_ONES_def)
  moreover have "those (map int_base16 (map format_04x hs)) = Some (map (\<lambda>h. h) hs)"
    unfolding map_map by (rule those_map_Some) (simp add: int_base16_format_04x)
  ultimately show ?thesis
    by (simp add: string_from_ip_int_def hex_slices_value [OF assms])
qed


section \<open>What a parsed address is\<close>


lemma hi_lo_skipped_None:
  assumes "hi_lo_skipped parts None = Some (parts_hi, parts_lo, parts_skipped)"
  shows "parts_hi = 8" and "parts_lo = 0" and "parts_skipped = 0" and "length parts = 8"
  using assms by (auto simp: hi_lo_skipped_def split: if_splits)


lemma ip_int_from_string_Some:
  assumes "ip_int_from_string s = Some v"
  obtains parts skip parts_hi parts_lo parts_skipped ip_int where
    "s \<noteq> []" and "3 \<le> length (str_split CHR '':'' s)"
    and "v4_suffix (str_split CHR '':'' s) = Some parts" and "length parts \<le> 9"
    and "find_skip parts [1 ..< length parts - 1] None = Some skip"
    and "hi_lo_skipped parts skip = Some (parts_hi, parts_lo, parts_skipped)"
    and "shift_hextets 0 (take parts_hi parts) = Some ip_int"
    and "shift_hextets (push_bit (16 * parts_skipped) ip_int)
           (drop (length parts - parts_lo) parts) = Some v"
proof -
  define parts0 where "parts0 = str_split CHR '':'' s"
  have ne: "s \<noteq> []"
    using assms by (cases "s = []") (simp_all add: ip_int_from_string_def)
  have l3: "3 \<le> length parts0"
    using assms ne by (cases "length parts0 < 3") (simp_all add: ip_int_from_string_def parts0_def)
  obtain parts where v4: "v4_suffix parts0 = Some parts"
    using assms ne l3
    by (cases "v4_suffix parts0") (simp_all add: ip_int_from_string_def parts0_def)
  have e: "ip_int_from_string s =
      (if length parts > 9 then None
       else (case find_skip parts [1 ..< length parts - 1] None of
         None \<Rightarrow> None
       | Some skip \<Rightarrow>
           (case hi_lo_skipped parts skip of
              None \<Rightarrow> None
            | Some (parts_hi, parts_lo, parts_skipped) \<Rightarrow>
                (case shift_hextets 0 (take parts_hi parts) of
                   None \<Rightarrow> None
                 | Some ip_int \<Rightarrow>
                     shift_hextets (push_bit (16 * parts_skipped) ip_int)
                       (drop (length parts - parts_lo) parts)))))"
    using ne l3 v4 by (simp add: ip_int_from_string_def parts0_def Let_def)
  have l9: "length parts \<le> 9"
    using assms unfolding e by (cases "length parts > 9") simp_all
  obtain skip where fs: "find_skip parts [1 ..< length parts - 1] None = Some skip"
    using assms l9 unfolding e
    by (cases "find_skip parts [1 ..< length parts - 1] None") simp_all
  obtain parts_hi parts_lo parts_skipped
    where hl: "hi_lo_skipped parts skip = Some (parts_hi, parts_lo, parts_skipped)"
    using assms l9 fs unfolding e
    by (cases "hi_lo_skipped parts skip") auto
  obtain ip_int where s1: "shift_hextets 0 (take parts_hi parts) = Some ip_int"
    using assms l9 fs hl unfolding e
    by (cases "shift_hextets 0 (take parts_hi parts)") simp_all
  have s2: "shift_hextets (push_bit (16 * parts_skipped) ip_int)
           (drop (length parts - parts_lo) parts) = Some v"
    using assms l9 fs hl s1 unfolding e by simp
  from ne l3 v4 l9 fs hl s1 s2 show ?thesis
    unfolding parts0_def by (rule that)
qed


lemma split_scope_id_plain:
  assumes "CHR ''%'' \<notin> set s"
  shows "split_scope_id s = Some (s, None)"
proof -
  from assms have d: "dropWhile (\<lambda>c. c \<noteq> CHR ''%'') s = []"
    by (auto simp: dropWhile_eq_Nil_conv)
  from assms have t: "takeWhile (\<lambda>c. c \<noteq> CHR ''%'') s = s"
    by (auto simp: takeWhile_eq_all_conv)
  show ?thesis unfolding split_scope_id_def Let_def d t by simp
qed


lemma IPv6Address_plain:
  assumes "CHR ''/'' \<notin> set s" and "CHR ''%'' \<notin> set s" and "ip_int_from_string s = Some v"
  shows "IPv6Address s = Some \<lparr>ip_value = v, scope_id = None\<rparr>"
  using assms(1,3) by (simp add: IPv6Address_def split_scope_id_plain [OF assms(2)])


section \<open>Encoding and decoding an address\<close>

lemma join_no_char:
  assumes "c \<noteq> sep" and "\<forall>p \<in> set ps. c \<notin> set p"
  shows "c \<notin> set (str_join [sep] ps)"
  using set_str_join [of "[sep]" ps] assms by auto

lemma format_04x_chars:
  "CHR '':'' \<notin> set (format_04x n)" "CHR ''/'' \<notin> set (format_04x n)"
  "CHR ''%'' \<notin> set (format_04x n)" "CHR ''.'' \<notin> set (format_04x n)"
  using hex_no_punct [OF format_04x_hex [of n]] by simp_all



lemma decode_parts_filter:
  assumes "get_tokenizer = Inr self"
  shows "decode_parts self ids parts =
     parts @ map (\<lambda>i. format_04x (nat i)) (filter (\<lambda>i. 0 \<le> i \<and> i \<le> 65535) ids)"
proof (induction ids arbitrary: parts)
  case Nil
  then show ?case by simp
next
  case (Cons idx ids)
  show ?case
  proof (cases "id_to_special_token self idx \<noteq> None")
    case True
    then have "\<not> (0 \<le> idx \<and> idx \<le> 65535)"
      using special_id_iff [OF assms, of idx] by simp
    with True Cons show ?thesis by simp
  next
    case False
    with Cons show ?thesis by simp
  qed
qed



lemma exploded_valid:
  assumes "length hs = 8" and "\<forall>h \<in> set hs. h < 65536"
  shows "IPv6Address (str_join '':'' (map format_04x hs))
           = Some \<lparr>ip_value = int_of_hextets hs, scope_id = None\<rparr>"
proof (rule IPv6Address_plain)
  show "CHR ''/'' \<notin> set (str_join '':'' (map format_04x hs))"
    by (intro join_no_char) (auto simp: format_04x_chars)
  show "CHR ''%'' \<notin> set (str_join '':'' (map format_04x hs))"
    by (intro join_no_char) (auto simp: format_04x_chars)
  show "ip_int_from_string (str_join '':'' (map format_04x hs)) = Some (int_of_hextets hs)"
    using assms by (intro parse_full hextets_format_04x) simp_all
qed

lemma decode_hextets:
  assumes "get_tokenizer = Inr self" and "length hs = 8" and "\<forall>h \<in> set hs. h < 65536"
  shows "decode self (map int hs) = str_join '':'' (compress_hextets (map format_x hs))"
proof -
  have "filter (\<lambda>i. 0 \<le> i \<and> i \<le> 65535) (map int hs) = map int hs"
    using assms(3) by (auto simp: filter_id_conv)
  then have "decode_parts self (map int hs) [] = map format_04x hs"
    by (simp add: decode_parts_filter [OF assms(1)] comp_def)
  moreover have "length (map format_04x hs) \<noteq> 0" using assms(2) by simp
  ultimately show ?thesis
    by (simp add: decode_def exploded_valid [OF assms(2,3)] ipv6_str_def
          string_from_ip_int_value [OF assms(2,3)])
qed

section \<open>A valid address has no blank\<close>










section \<open>The round trip\<close>









section \<open>Decoding arbitrary token ids\<close>

lemma hex_digit_lower: "d < 16 \<Longrightarrow> hex_digit d \<in> set ''0123456789abcdef''"
  unfolding hex_digit_def by (rule nth_mem) simp

lemma format_x_lower: "set (format_x n) \<subseteq> set ''0123456789abcdef''"
proof (induction n rule: format_x.induct)
  case (1 n)
  show ?case
  proof (cases "n < 16")
    case True
    then show ?thesis using hex_digit_lower [of n] by (simp add: format_x_small)
  next
    case False
    with 1 show ?thesis using hex_digit_lower [of "n mod 16"] by (simp add: format_x_large)
  qed
qed

lemma format_04x_lower: "set (format_04x n) \<subseteq> set ''0123456789abcdef''"
  using format_x_lower [of n] by (auto simp: format_04x_def zero_pad_def)

lemma groups_not_address:
  assumes "ps \<noteq> []" and "length ps \<noteq> 8"
    and "\<forall>p \<in> set ps. p \<noteq> [] \<and> CHR '':'' \<notin> set p \<and> CHR ''.'' \<notin> set p"
  shows "ip_int_from_string (str_join '':'' ps) = None"
proof (rule ccontr)
  assume "ip_int_from_string (str_join '':'' ps) \<noteq> None"
  then obtain v where v: "ip_int_from_string (str_join '':'' ps) = Some v" by blast
  have sp: "str_split CHR '':'' (str_join '':'' ps) = ps"
    using assms(1,3) by (intro str_split_join) auto
  from v obtain parts skip parts_hi parts_lo parts_skipped where
    v4: "v4_suffix (str_split CHR '':'' (str_join '':'' ps)) = Some parts"
    and fs: "find_skip parts [1 ..< length parts - 1] None = Some skip"
    and hl: "hi_lo_skipped parts skip = Some (parts_hi, parts_lo, parts_skipped)"
    by (rule ip_int_from_string_Some)
  have "last ps \<in> set ps" using assms(1) by simp
  with assms(3) have "CHR ''.'' \<notin> set (last ps)" by blast
  with v4 have parts: "parts = ps" by (simp add: sp v4_suffix_def)
  have "\<forall>i \<in> set [1 ..< length ps - 1]. ps ! i \<noteq> []"
    using assms(3) by (auto simp: all_set_conv_all_nth)
  from find_skip_none [OF this, of None] fs have "skip = None" by (simp add: parts)
  with hl have "length ps = 8" using hi_lo_skipped_None(4) by (simp add: parts)
  with assms(2) show False by simp
qed

lemma groups_not_IPv6Address:
  assumes "ps \<noteq> []" and "length ps \<noteq> 8"
    and "\<forall>p \<in> set ps. p \<noteq> [] \<and> CHR '':'' \<notin> set p \<and> CHR ''.'' \<notin> set p \<and> CHR ''%'' \<notin> set p"
  shows "IPv6Address (str_join '':'' ps) = None"
proof -
  have "CHR ''%'' \<notin> set (str_join '':'' ps)"
    using assms(3) by (intro join_no_char) auto
  from split_scope_id_plain [OF this] groups_not_address [OF assms(1,2)] assms(3)
  show ?thesis by (simp add: IPv6Address_def)
qed

lemma format_04x_nonempty: "format_04x n \<noteq> []"
  using format_x_nonempty [of n] by (simp add: format_04x_def zero_pad_def)

text \<open>
  C9. For every list of token ids \<open>decode\<close> returns a string: the ids that name a control
  token and the ids outside \<open>[0, 65535]\<close> (negative ones, and ones at or above 65536, known or
  not) add nothing, so that the result is the result for the list without them; every id in
  \<open>[0, 65535]\<close> is rendered as its group of four lowercase hexadecimal digits. With no group
  the result is the empty string, with eight groups it is the compressed form of the address
  they spell, and otherwise it is the groups joined by colons.
\<close>

theorem decode_drops_unknown:
  assumes "get_tokenizer = Inr self"
  shows "decode_parts self ids []
           = map (\<lambda>i. format_04x (nat i)) (filter (\<lambda>i. 0 \<le> i \<and> i \<le> 65535) ids)
       \<and> decode self ids = decode self (filter (\<lambda>i. 0 \<le> i \<and> i \<le> 65535) ids)
       \<and> (\<forall>i. id_to_special_token self i \<noteq> None \<longrightarrow> \<not> (0 \<le> i \<and> i \<le> 65535))
       \<and> (\<forall>i. 0 \<le> i \<and> i \<le> 65535 \<longrightarrow>
             length (format_04x (nat i)) = 4
           \<and> set (format_04x (nat i)) \<subseteq> set ''0123456789abcdef''
           \<and> int_base16 (format_04x (nat i)) = Some (nat i))
       \<and> (filter (\<lambda>i. 0 \<le> i \<and> i \<le> 65535) ids = [] \<longrightarrow> decode self ids = [])
       \<and> (length (filter (\<lambda>i. 0 \<le> i \<and> i \<le> 65535) ids) = 8 \<longrightarrow>
             decode self ids = str_join '':'' (compress_hextets
               (map (\<lambda>i. format_x (nat i)) (filter (\<lambda>i. 0 \<le> i \<and> i \<le> 65535) ids))))
       \<and> (filter (\<lambda>i. 0 \<le> i \<and> i \<le> 65535) ids \<noteq> []
            \<and> length (filter (\<lambda>i. 0 \<le> i \<and> i \<le> 65535) ids) \<noteq> 8 \<longrightarrow>
             decode self ids = str_join '':''
               (map (\<lambda>i. format_04x (nat i)) (filter (\<lambda>i. 0 \<le> i \<and> i \<le> 65535) ids)))"
proof -
  define kept where "kept = filter (\<lambda>i. 0 \<le> i \<and> i \<le> 65535) ids"
  have k: "filter (\<lambda>i. 0 \<le> i \<and> i \<le> 65535) kept = kept"
    unfolding kept_def by simp
  have p: "decode_parts self ids [] = map (\<lambda>i. format_04x (nat i)) kept"
    by (simp add: decode_parts_filter [OF assms] kept_def)
  have pk: "decode_parts self kept [] = map (\<lambda>i. format_04x (nat i)) kept"
    by (simp add: decode_parts_filter [OF assms] k)
  have d: "decode self ids = decode self kept"
    by (simp add: decode_def p pk)
  have c: "\<forall>i. id_to_special_token self i \<noteq> None \<longrightarrow> \<not> (0 \<le> i \<and> i \<le> 65535)"
    using special_id_iff [OF assms] by auto
  have g: "\<forall>i. 0 \<le> i \<and> i \<le> 65535 \<longrightarrow>
             length (format_04x (nat i)) = 4
           \<and> set (format_04x (nat i)) \<subseteq> set ''0123456789abcdef''
           \<and> int_base16 (format_04x (nat i)) = Some (nat i)"
  proof (intro allI impI conjI)
    fix i :: int
    assume "0 \<le> i \<and> i \<le> 65535"
    then have "nat i < 65536" by linarith
    then show "length (format_04x (nat i)) = 4" by (rule length_format_04x)
    show "set (format_04x (nat i)) \<subseteq> set ''0123456789abcdef''" by (rule format_04x_lower)
    show "int_base16 (format_04x (nat i)) = Some (nat i)" by (rule int_base16_format_04x)
  qed
  have e: "decode self ids = []" if "kept = []"
    using that by (simp add: decode_def p)
  have f: "decode self ids = str_join '':'' (compress_hextets (map (\<lambda>i. format_x (nat i)) kept))"
    if l: "length kept = 8"
  proof -
    define hs where "hs = map nat kept"
    have r: "\<forall>i \<in> set kept. 0 \<le> i \<and> i \<le> 65535" unfolding kept_def by simp
    then have m: "map int hs = kept" unfolding hs_def by (simp add: map_idI)
    have "length hs = 8" using l by (simp add: hs_def)
    moreover have "\<forall>h \<in> set hs. h < 65536" using r by (auto simp: hs_def)
    ultimately have "decode self (map int hs) = str_join '':'' (compress_hextets (map format_x hs))"
      by (rule decode_hextets [OF assms])
    then show ?thesis unfolding m d by (simp add: hs_def comp_def)
  qed
  have n: "decode self ids = str_join '':'' (map (\<lambda>i. format_04x (nat i)) kept)"
    if ne: "kept \<noteq> []" and l: "length kept \<noteq> 8"
  proof -
    let ?ps = "map (\<lambda>i. format_04x (nat i)) kept"
    have 1: "?ps \<noteq> []" using ne by simp
    have 2: "length ?ps \<noteq> 8" using l by simp
    have 3: "\<forall>p \<in> set ?ps. p \<noteq> [] \<and> CHR '':'' \<notin> set p \<and> CHR ''.'' \<notin> set p \<and> CHR ''%'' \<notin> set p"
      by (auto simp: format_04x_chars format_04x_nonempty)
    from groups_not_IPv6Address [OF 1 2 3] ne show ?thesis
      by (simp add: decode_def p)
  qed
  from e have e': "kept = [] \<longrightarrow> decode self ids = []" by blast
  from f have f': "length kept = 8 \<longrightarrow>
      decode self ids = str_join '':'' (compress_hextets (map (\<lambda>i. format_x (nat i)) kept))"
    by blast
  from n have n': "kept \<noteq> [] \<and> length kept \<noteq> 8 \<longrightarrow>
      decode self ids = str_join '':'' (map (\<lambda>i. format_04x (nat i)) kept)"
    by blast
  show ?thesis unfolding kept_def [symmetric]
    by (intro conjI) (rule p d c g e' f' n')+
qed

theorem decode_drops_unknown_witness:
  "\<exists>self. get_tokenizer = Inr self
     \<and> decode self [65536, 0x2001, - 5, 0x0db8, 70000, 0, 0, 0, 0, 0, 1, 65537] = ''2001:db8::1''
     \<and> decode self [65536, - 1, 70000] = []
     \<and> decode self [1, 65542, 255] = ''0001:00ff''"
proof -
  obtain self where s: "get_tokenizer = Inr self" using get_tokenizer_ok by blast
  let ?P = "\<lambda>i::int. 0 \<le> i \<and> i \<le> 65535"
  let ?a = "[65536, 0x2001, - 5, 0x0db8, 70000, 0, 0, 0, 0, 0, 1, 65537] :: int list"
  let ?b = "[65536, - 1, 70000] :: int list"
  let ?c = "[1, 65542, 255] :: int list"
  from decode_drops_unknown [OF s, of ?a]
  have "length (filter ?P ?a) = 8 \<longrightarrow> decode self ?a
      = str_join '':'' (compress_hextets (map (\<lambda>i. format_x (nat i)) (filter ?P ?a)))"
    by blast
  then have 1: "decode self ?a = ''2001:db8::1''"
    by (simp add: str_defs compress_hextets_def)
  from decode_drops_unknown [OF s, of ?b]
  have "filter ?P ?b = [] \<longrightarrow> decode self ?b = []" by blast
  then have 2: "decode self ?b = []" by simp
  from decode_drops_unknown [OF s, of ?c]
  have "filter ?P ?c \<noteq> [] \<and> length (filter ?P ?c) \<noteq> 8 \<longrightarrow> decode self ?c
      = str_join '':'' (map (\<lambda>i. format_04x (nat i)) (filter ?P ?c))"
    by blast
  then have 3: "decode self ?c = ''0001:00ff''" by (simp add: str_defs)
  from s 1 2 3 show ?thesis by blast
qed

end
